theory Spec2Isabelle
  imports Complex_Main "HOL-Library.Sublist"
begin

section \<open>The test driver of Kaleidoscope-Testing (src/Driver.cpp)\<close>

text \<open>
  A shallow embedding of \<^verbatim>\<open>kaleidoscope::testing::Driver\<close>. The driver advances a
  firmware scan loop one cycle at a time, routes every keyboard report the firmware emits
  during a cycle to queued and permanent assertions, and accumulates the assertion
  outcomes in one flag.

  Conventions of the embedding:
  \<^item> member names are kept without the trailing underscore of the C++ source (a constant
    name cannot end in an underscore);
  \<^item> assertion objects are shared (\<^verbatim>\<open>std::shared_ptr<_Assertion>\<close>); a list of
    assertions is a list of object addresses;
  \<^item> the assertion classes live in \<^verbatim>\<open>assertions/_Assertion.h\<close>; what \<^verbatim>\<open>eval()\<close>
    of an assertion returns is a parameter \<open>ev\<close> of every operation: \<open>ev a d\<close> is the
    result of \<^verbatim>\<open>eval()\<close> of the object at address \<open>a\<close> when the driver is in state \<open>d\<close>;
  \<^item> the firmware (\<^verbatim>\<open>::loop()\<close>) is a parameter \<open>loop\<close>: one scan of the firmware in
    state \<open>w\<close> yields the reports it sends, in order, and its next state; the call is
    taken to return;
  \<^item> \<^verbatim>\<open>exit(1)\<close> is the outcome \<open>Exited\<close>;
  \<^item> the integer members are mathematical integers (signed overflow is undefined in C++),
    and the \<^verbatim>\<open>double\<close> arguments are finite reals;
  \<^item> the member \<open>trace\<close> holds, in order of occurrence, what the driver writes to its
    output stream and the calls it makes to assertion objects and to the firmware. A line
    written through \<^verbatim>\<open>log()\<close> or \<^verbatim>\<open>error()\<close> is the list of the items streamed into it,
    without the time and cycle prefix, the banners and the final newline.
\<close>

subsection \<open>Data\<close>

type_synonym aref = nat

datatype item = Str string | Num int | Dbl real

text \<open>
  The events of a trace: a line through \<^verbatim>\<open>log()\<close>, a line through \<^verbatim>\<open>error()\<close>, a line
  on \<^verbatim>\<open>std::cout\<close>, a call \<^verbatim>\<open>setDriver(this)\<close> on an assertion, a call \<^verbatim>\<open>eval()\<close> with
  its result, a call \<^verbatim>\<open>report(out_)\<close>, and a call of the firmware's \<^verbatim>\<open>::loop()\<close>.
\<close>

datatype event =
    Log_out "item list"
  | Error_out "item list"
  | Stdout string
  | SetDriver aref
  | Eval aref bool
  | Report_out aref
  | Subject_loop

text \<open>
  How a call ends: it returns a value in a state, or the process exits in a state, or
  (for the one loop that need not end) the fuel is used up in a state.
\<close>

datatype ('a, 's) outcome = Returned 'a 's | Exited 's | OutOfFuel 's

record 'r Driver =
  trace :: "event list"
  debug :: bool
  cycle_duration :: int
  abort_on_first_error :: bool
  queued_keyboard_report_assertions :: "aref list"
  permanent_keyboard_report_assertions :: "aref list"
  queued_cycle_assertions :: "aref list"
  permanent_cycle_assertions :: "aref list"
  current_keyboard_report :: 'r
  n_overall_keyboard_reports :: int
  n_keyboard_reports_in_cycle :: int
  cycle_id :: int
  time :: int
  assertions_passed :: bool
  error_if_report_without_queued_assertions :: bool
  scan_cycles_default_count :: int

subsection \<open>Streams\<close>

text \<open>\<^verbatim>\<open>this->log() << ...\<close>: one line on the output stream.\<close>

definition Driver_log :: "item list \<Rightarrow> 'r Driver \<Rightarrow> 'r Driver" where
  "Driver_log m d = d\<lparr>trace := trace d @ [Log_out m]\<rparr>"

text \<open>
  \<^verbatim>\<open>this->error() << ...\<close>: the line goes to the output stream between the banners of
  the constructor and the destructor of \<^verbatim>\<open>ErrorStream\<close> (lines 53-68), and the
  destructor calls \<^verbatim>\<open>exit(1)\<close> when \<^verbatim>\<open>abort_on_first_error_\<close> is set. The accessor
  \<^verbatim>\<open>error()\<close> is declared in \<^verbatim>\<open>Driver.h\<close>; as the specification has it (sections
  4.2 and 6), the stream of one use is destroyed, and the process may exit, right after
  its line.
\<close>

definition Driver_error :: "item list \<Rightarrow> 'r Driver \<Rightarrow> (unit, 'r Driver) outcome" where
  "Driver_error m d =
     (let d' = d\<lparr>trace := trace d @ [Error_out m]\<rparr>
      in if abort_on_first_error d' then Exited d' else Returned () d')"

subsection \<open>Assertion queues\<close>

text \<open>
  The class \<^verbatim>\<open>AssertionQueue\<close> is declared outside \<^verbatim>\<open>Driver.cpp\<close>. A queue is the
  sequence of its assertions, earliest first; \<^verbatim>\<open>empty()\<close> is \<open>q = []\<close>, \<^verbatim>\<open>size()\<close> is
  \<open>length q\<close> and \<^verbatim>\<open>clear()\<close> leaves \<open>[]\<close>.
\<close>

text \<open>
  Modelled from the spec: \<^verbatim>\<open>AssertionQueue::pushBack\<close> is not in \<^verbatim>\<open>Driver.cpp\<close>. It
  appends to the ordered sequence.
\<close>

definition pushBack :: "aref \<Rightarrow> aref list \<Rightarrow> aref list" where
  "pushBack a q = q @ [a]"

text \<open>
  Modelled from the spec: \<^verbatim>\<open>AssertionQueue::add\<close> is not in \<^verbatim>\<open>Driver.cpp\<close>. It inserts
  into the permanent collection, duplicates allowed.
\<close>

definition add :: "aref \<Rightarrow> aref list \<Rightarrow> aref list" where
  "add a q = q @ [a]"

text \<open>
  Modelled from the spec: \<^verbatim>\<open>AssertionQueue::popFront\<close> is not in \<^verbatim>\<open>Driver.cpp\<close>. It
  fails on the empty queue and otherwise removes and returns the earliest-pushed
  assertion.
\<close>

definition popFront :: "aref list \<Rightarrow> (aref \<times> aref list) option" where
  "popFront q = (case q of [] \<Rightarrow> None | a # q' \<Rightarrow> Some (a, q'))"

text \<open>
  Modelled from the spec: \<^verbatim>\<open>AssertionQueue::directAccess\<close> is not in \<^verbatim>\<open>Driver.cpp\<close>.
  It gives the container, to read and iterate without removal.
\<close>

definition directAccess :: "aref list \<Rightarrow> aref list" where
  "directAccess q = q"

text \<open>
  Modelled from the spec: \<^verbatim>\<open>queueReportAssertion\<close> is declared in \<^verbatim>\<open>Driver.h\<close>, which
  is not among the sources. It appends to the queued report assertions.
\<close>

definition queueReportAssertion :: "aref \<Rightarrow> 'r Driver \<Rightarrow> 'r Driver" where
  "queueReportAssertion a d =
     d\<lparr>queued_keyboard_report_assertions := pushBack a (queued_keyboard_report_assertions d)\<rparr>"

text \<open>
  Modelled from the spec: \<^verbatim>\<open>addPermanentReportAssertion\<close> is declared in \<^verbatim>\<open>Driver.h\<close>,
  which is not among the sources. It adds to the permanent report assertions.
\<close>

definition addPermanentReportAssertion :: "aref \<Rightarrow> 'r Driver \<Rightarrow> 'r Driver" where
  "addPermanentReportAssertion a d =
     d\<lparr>permanent_keyboard_report_assertions := add a (permanent_keyboard_report_assertions d)\<rparr>"

text \<open>
  Modelled from the spec: \<^verbatim>\<open>queueCycleAssertion\<close> is declared in \<^verbatim>\<open>Driver.h\<close>, which
  is not among the sources. It appends to the queued cycle assertions.
\<close>

definition queueCycleAssertion :: "aref \<Rightarrow> 'r Driver \<Rightarrow> 'r Driver" where
  "queueCycleAssertion a d =
     d\<lparr>queued_cycle_assertions := pushBack a (queued_cycle_assertions d)\<rparr>"

text \<open>
  Modelled from the spec: \<^verbatim>\<open>addPermanentCycleAssertion\<close> is declared in \<^verbatim>\<open>Driver.h\<close>,
  which is not among the sources. It adds to the permanent cycle assertions.
\<close>

definition addPermanentCycleAssertion :: "aref \<Rightarrow> 'r Driver \<Rightarrow> 'r Driver" where
  "addPermanentCycleAssertion a d =
     d\<lparr>permanent_cycle_assertions := add a (permanent_cycle_assertions d)\<rparr>"

subsection \<open>Evaluating assertions\<close>

text \<open>\<^verbatim>\<open>assertion->setDriver(this)\<close>.\<close>

definition setDriver :: "aref \<Rightarrow> 'r Driver \<Rightarrow> 'r Driver" where
  "setDriver a d = d\<lparr>trace := trace d @ [SetDriver a]\<rparr>"

text \<open>\<^verbatim>\<open>Driver::processKeyboardReportAssertion\<close>, lines 316-325.\<close>

definition processKeyboardReportAssertion ::
  "(aref \<Rightarrow> 'r Driver \<Rightarrow> bool) \<Rightarrow> aref \<Rightarrow> 'r Driver \<Rightarrow> 'r Driver" where
  "processKeyboardReportAssertion ev assertion d =
     (let assertion_passed = ev assertion d;
          d1 = d\<lparr>trace := trace d @ [Eval assertion assertion_passed]\<rparr>;
          d2 = (if \<not> assertion_passed \<or> debug d1
                then d1\<lparr>trace := trace d1 @ [Report_out assertion]\<rparr> else d1)
      in d2\<lparr>assertions_passed := (assertions_passed d2 \<and> assertion_passed)\<rparr>)"

text \<open>
  Modelled from the spec: \<^verbatim>\<open>processCycleAssertions\<close> is declared in \<^verbatim>\<open>Driver.h\<close>,
  which is not among the sources. It
  applies the evaluation policy of \<open>processKeyboardReportAssertion\<close> (evaluate, report on
  failure or in debug mode, accumulate) to every assertion of the container, in order.
\<close>

definition processCycleAssertions ::
  "(aref \<Rightarrow> 'r Driver \<Rightarrow> bool) \<Rightarrow> aref list \<Rightarrow> 'r Driver \<Rightarrow> 'r Driver" where
  "processCycleAssertions ev assertions d =
     fold (processKeyboardReportAssertion ev) assertions d"

subsection \<open>Reports\<close>

definition msg_report_without_assertions :: string where
  "msg_report_without_assertions = ''Encountered a report without assertions being queued''"

text \<open>
  \<^verbatim>\<open>Driver::processKeyboardReport\<close>, lines 280-314. \<open>popFront\<close> is called behind the
  guard of line 297, so its failure branch is never taken; it is written out as an error
  line.
\<close>

definition processKeyboardReport ::
  "(aref \<Rightarrow> 'r Driver \<Rightarrow> bool) \<Rightarrow> 'r \<Rightarrow> 'r Driver \<Rightarrow> (unit, 'r Driver) outcome" where
  "processKeyboardReport ev report_data d =
     (let d1 = d\<lparr>current_keyboard_report := report_data\<rparr>;
          d2 = d1\<lparr>n_overall_keyboard_reports := n_overall_keyboard_reports d1 + 1\<rparr>;
          d3 = d2\<lparr>n_keyboard_reports_in_cycle := n_keyboard_reports_in_cycle d2 + 1\<rparr>;
          d4 = Driver_log [Str ''Processing keyboard report '',
                           Num (n_overall_keyboard_reports d3), Str '' ('',
                           Num (n_keyboard_reports_in_cycle d3), Str ''. in cycle '',
                           Num (cycle_id d3), Str '')''] d3;
          n_assertions_queued = length (queued_keyboard_report_assertions d4);
          d5 = Driver_log [Num (int n_assertions_queued),
                           Str '' queued report assertions''] d4
      in case (if queued_keyboard_report_assertions d5 \<noteq> []
               then (case popFront (queued_keyboard_report_assertions d5) of
                       Some (a, q') \<Rightarrow>
                         Returned () (processKeyboardReportAssertion ev a
                           (d5\<lparr>queued_keyboard_report_assertions := q'\<rparr>))
                     | None \<Rightarrow> Driver_error [Str ''EmptyQueueError''] d5)
               else Returned () d5) of
           Returned _ d6 \<Rightarrow>
             (let d7 = (if permanent_keyboard_report_assertions d6 \<noteq> []
                        then fold (processKeyboardReportAssertion ev)
                               (directAccess (permanent_keyboard_report_assertions d6))
                               (Driver_log
                                  [Num (int (length (permanent_keyboard_report_assertions d6))),
                                   Str '' permanent report assertions''] d6)
                        else d6)
              in if n_assertions_queued = 0 \<and> error_if_report_without_queued_assertions d7
                 then Driver_error [Str msg_report_without_assertions] d7
                 else Returned () d7)
         | Exited x \<Rightarrow> Exited x
         | OutOfFuel x \<Rightarrow> OutOfFuel x)"

text \<open>\<^verbatim>\<open>Driver::KeyboardReportConsumer::processKeyboardReport\<close>, lines 91-96.\<close>

definition KeyboardReportConsumer_processKeyboardReport ::
  "(aref \<Rightarrow> 'r Driver \<Rightarrow> bool) \<Rightarrow> 'r \<Rightarrow> 'r Driver \<Rightarrow> (unit, 'r Driver) outcome" where
  "KeyboardReportConsumer_processKeyboardReport ev report_data d =
     processKeyboardReport ev report_data
       (d\<lparr>trace := trace d @ [Stdout ''************* Processing keyboard report'']\<rparr>)"

text \<open>
  The reports of one scan reach the consumer one after the other, while \<^verbatim>\<open>::loop()\<close>
  runs; nothing more is delivered once the process has exited.
\<close>

fun deliver ::
  "(aref \<Rightarrow> 'r Driver \<Rightarrow> bool) \<Rightarrow> 'r list \<Rightarrow> 'r Driver \<Rightarrow> (unit, 'r Driver) outcome" where
  "deliver ev [] d = Returned () d"
| "deliver ev (r # rs) d =
     (case KeyboardReportConsumer_processKeyboardReport ev r d of
        Returned _ d' \<Rightarrow> deliver ev rs d'
      | Exited x \<Rightarrow> Exited x
      | OutOfFuel x \<Rightarrow> OutOfFuel x)"

text \<open>
  The call \<^verbatim>\<open>::loop()\<close> of line 343. When the process exits inside the call, the
  firmware state of the outcome is the one the scan started from.
\<close>

definition call_loop ::
  "(aref \<Rightarrow> 'r Driver \<Rightarrow> bool) \<Rightarrow> ('w \<Rightarrow> 'r list \<times> 'w) \<Rightarrow> 'r Driver \<Rightarrow> 'w
     \<Rightarrow> (unit, 'r Driver \<times> 'w) outcome" where
  "call_loop ev loop d w =
     (case loop w of (reports, w') \<Rightarrow>
        (case deliver ev reports (d\<lparr>trace := trace d @ [Subject_loop]\<rparr>) of
           Returned _ d' \<Rightarrow> Returned () (d', w')
         | Exited d' \<Rightarrow> Exited (d', w)
         | OutOfFuel d' \<Rightarrow> OutOfFuel (d', w)))"

subsection \<open>Scan cycles\<close>

text \<open>\<^verbatim>\<open>Driver::cycleInternal\<close>, lines 327-378.\<close>

definition cycleInternal ::
  "(aref \<Rightarrow> 'r Driver \<Rightarrow> bool) \<Rightarrow> ('w \<Rightarrow> 'r list \<times> 'w) \<Rightarrow> aref list \<Rightarrow> bool
     \<Rightarrow> 'r Driver \<Rightarrow> 'w \<Rightarrow> (unit, 'r Driver \<times> 'w) outcome" where
  "cycleInternal ev loop on_stop_assertion_list only_log_reports d w =
     (let d1 = d\<lparr>cycle_id := cycle_id d + 1\<rparr>;
          d2 = d1\<lparr>n_keyboard_reports_in_cycle := 0\<rparr>;
          d3 = (if \<not> only_log_reports
                then Driver_log [Str ''Scan cycle '', Num (cycle_id d2)] d2 else d2);
          d4 = (if on_stop_assertion_list = []
                then fold setDriver on_stop_assertion_list d3 else d3)
      in case call_loop ev loop d4 w of
           Returned _ (d5, w') \<Rightarrow>
             (let d6 = (if n_keyboard_reports_in_cycle d5 = 0
                        then (if \<not> only_log_reports
                              then Driver_log [Str ''No keyboard reports processed''] d5
                              else d5)
                        else Driver_log [Num (n_keyboard_reports_in_cycle d5),
                                         Str '' keyboard reports processed''] d5);
                  d7 = d6\<lparr>time := time d6 + cycle_duration d6\<rparr>;
                  d8 = (if on_stop_assertion_list \<noteq> []
                        then processCycleAssertions ev on_stop_assertion_list
                               (Driver_log [Str ''Processing '',
                                            Num (int (length on_stop_assertion_list)),
                                            Str '' cycle assertions on stop''] d7)
                        else d7);
                  d9 = (if queued_cycle_assertions d8 \<noteq> []
                        then (processCycleAssertions ev
                                (directAccess (queued_cycle_assertions d8))
                                (Driver_log [Str ''Processing '',
                                             Num (int (length (queued_cycle_assertions d8))),
                                             Str '' queued cycle assertions''] d8))
                             \<lparr>queued_cycle_assertions := []\<rparr>
                        else d8);
                  d10 = (if permanent_cycle_assertions d9 \<noteq> []
                         then processCycleAssertions ev
                                (directAccess (permanent_cycle_assertions d9))
                                (Driver_log [Str ''Processing '',
                                             Num (int (length (permanent_cycle_assertions d9))),
                                             Str '' permanent cycle assertions''] d9)
                         else d9)
              in Returned () (d10, w'))
         | Exited x \<Rightarrow> Exited x
         | OutOfFuel x \<Rightarrow> OutOfFuel x)"

text \<open>\<^verbatim>\<open>Driver::cycle\<close>, lines 158-163.\<close>

definition cycle ::
  "(aref \<Rightarrow> 'r Driver \<Rightarrow> bool) \<Rightarrow> ('w \<Rightarrow> 'r list \<times> 'w) \<Rightarrow> aref list
     \<Rightarrow> 'r Driver \<Rightarrow> 'w \<Rightarrow> (unit, 'r Driver \<times> 'w) outcome" where
  "cycle ev loop on_stop_assertion_list d w =
     (case cycleInternal ev loop on_stop_assertion_list True
             (Driver_log [Str ''Running single scan cycle''] d) w of
        Returned _ (d', w') \<Rightarrow> Returned () (Driver_log [] d', w')
      | Exited x \<Rightarrow> Exited x
      | OutOfFuel x \<Rightarrow> OutOfFuel x)"

text \<open>The \<^verbatim>\<open>for\<close> loop of \<^verbatim>\<open>Driver::cycles\<close>, lines 180-182.\<close>

function cycles_loop ::
  "(aref \<Rightarrow> 'r Driver \<Rightarrow> bool) \<Rightarrow> ('w \<Rightarrow> 'r list \<times> 'w) \<Rightarrow> int \<Rightarrow> int \<Rightarrow> aref list
     \<Rightarrow> 'r Driver \<Rightarrow> 'w \<Rightarrow> (unit, 'r Driver \<times> 'w) outcome" where
  "cycles_loop ev loop i n cycle_assertion_list d w =
     (if i < n
      then (case cycleInternal ev loop cycle_assertion_list True d w of
              Returned _ (d', w') \<Rightarrow> cycles_loop ev loop (i + 1) n cycle_assertion_list d' w'
            | Exited x \<Rightarrow> Exited x
            | OutOfFuel x \<Rightarrow> OutOfFuel x)
      else Returned () (d, w))"
  by pat_completeness auto
termination
  by (relation "measure (\<lambda>(ev, loop, i, n, cl, d, w). nat (n - i))") auto

declare cycles_loop.simps [simp del]

text \<open>\<^verbatim>\<open>Driver::cycles\<close>, lines 165-191.\<close>

definition cycles ::
  "(aref \<Rightarrow> 'r Driver \<Rightarrow> bool) \<Rightarrow> ('w \<Rightarrow> 'r list \<times> 'w) \<Rightarrow> int \<Rightarrow> aref list \<Rightarrow> aref list
     \<Rightarrow> 'r Driver \<Rightarrow> 'w \<Rightarrow> (unit, 'r Driver \<times> 'w) outcome" where
  "cycles ev loop n0 on_stop_assertion_list cycle_assertion_list d w =
     (let n = (if n0 = 0 then scan_cycles_default_count d else n0);
          d1 = Driver_log [Str ''Running '', Num n, Str '' scan cycles''] d;
          d2 = (if on_stop_assertion_list \<noteq> []
                then fold setDriver on_stop_assertion_list d1 else d1)
      in case cycles_loop ev loop 0 n cycle_assertion_list d2 w of
           Returned _ (d3, w') \<Rightarrow>
             (let d4 = (if on_stop_assertion_list \<noteq> []
                        then processCycleAssertions ev on_stop_assertion_list
                               (Driver_log [Str ''Processing '',
                                            Num (int (length on_stop_assertion_list)),
                                            Str '' cycle assertions on stop''] d3)
                        else d3)
              in Returned () (Driver_log [] d4, w'))
         | Exited x \<Rightarrow> Exited x
         | OutOfFuel x \<Rightarrow> OutOfFuel x)"

subsection \<open>Skipping time\<close>

definition msg_cycle_duration :: string where
  "msg_cycle_duration =
     ''Please set test.cycle_duration_ to a value in [ms] greater zero before using time based testing''"

text \<open>\<^verbatim>\<open>Driver::checkCycleDurationSet\<close>, lines 380-385.\<close>

definition checkCycleDurationSet :: "'r Driver \<Rightarrow> (unit, 'r Driver) outcome" where
  "checkCycleDurationSet d =
     (if cycle_duration d = 0 then Driver_error [Str msg_cycle_duration] d
      else Returned () d)"

text \<open>
  The \<^verbatim>\<open>while\<close> loop of \<^verbatim>\<open>Driver::skipTime\<close>, lines 210-215. The loop need not end
  (a cycle duration of zero or below never reaches a positive \<open>delta_t\<close>), so it runs on
  fuel: one unit per scan cycle, and \<open>OutOfFuel\<close> when a further cycle is due and none is
  left.
\<close>

fun skipTime_loop ::
  "(aref \<Rightarrow> 'r Driver \<Rightarrow> bool) \<Rightarrow> ('w \<Rightarrow> 'r list \<times> 'w) \<Rightarrow> nat \<Rightarrow> real \<Rightarrow> int \<Rightarrow> real
     \<Rightarrow> 'r Driver \<Rightarrow> 'w \<Rightarrow> (real, 'r Driver \<times> 'w) outcome" where
  "skipTime_loop ev loop 0 delta_t start_time elapsed_time d w =
     (if elapsed_time < delta_t then OutOfFuel (d, w) else Returned elapsed_time (d, w))"
| "skipTime_loop ev loop (Suc fuel) delta_t start_time elapsed_time d w =
     (if elapsed_time < delta_t
      then (case cycleInternal ev loop [] True d w of
              Returned _ (d', w') \<Rightarrow>
                skipTime_loop ev loop fuel delta_t start_time
                  (real_of_int (time d' - start_time)) d' w'
            | Exited x \<Rightarrow> Exited x
            | OutOfFuel x \<Rightarrow> OutOfFuel x)
      else Returned elapsed_time (d, w))"

text \<open>
  \<^verbatim>\<open>Driver::skipTime\<close>, lines 193-226. The local \<^verbatim>\<open>start_cycle\<close> of line 198 is never
  read and is left out.
\<close>

definition skipTime ::
  "(aref \<Rightarrow> 'r Driver \<Rightarrow> bool) \<Rightarrow> ('w \<Rightarrow> 'r list \<times> 'w) \<Rightarrow> nat \<Rightarrow> real \<Rightarrow> aref list
     \<Rightarrow> 'r Driver \<Rightarrow> 'w \<Rightarrow> (unit, 'r Driver \<times> 'w) outcome" where
  "skipTime ev loop fuel delta_t on_stop_assertion_list d w =
     (case checkCycleDurationSet d of
        Returned _ d1 \<Rightarrow>
          (let d2 = Driver_log [Str ''Skipping dt >= '', Dbl delta_t, Str '' ms''] d1;
               d3 = (if on_stop_assertion_list \<noteq> []
                     then fold setDriver on_stop_assertion_list d2 else d2);
               start_time = time d3
           in case skipTime_loop ev loop fuel delta_t start_time 0 d3 w of
                Returned elapsed_time (d4, w') \<Rightarrow>
                  (let d5 = Driver_log [Dbl elapsed_time, Str '' ms ('', Num (cycle_id d4),
                                        Str '' cycles) skipped''] d4;
                       d6 = (if on_stop_assertion_list \<noteq> []
                             then processCycleAssertions ev on_stop_assertion_list
                                    (Driver_log [Str ''Processing '',
                                                 Num (int (length on_stop_assertion_list)),
                                                 Str '' cycle assertions on stop''] d5)
                             else d5)
                   in Returned () (Driver_log [] d6, w'))
              | Exited x \<Rightarrow> Exited x
              | OutOfFuel x \<Rightarrow> OutOfFuel x)
      | Exited d1 \<Rightarrow> Exited (d1, w)
      | OutOfFuel d1 \<Rightarrow> OutOfFuel (d1, w))"

subsection \<open>Status\<close>

text \<open>\<^verbatim>\<open>Driver::checkStatus\<close>, lines 233-257.\<close>

definition checkStatus :: "'r Driver \<Rightarrow> (bool, 'r Driver) outcome" where
  "checkStatus d =
     (let success = True
      in case (if queued_keyboard_report_assertions d \<noteq> []
               then (case Driver_error
                            [Str ''There are '',
                             Num (int (length (queued_keyboard_report_assertions d))),
                             Str '' left over assertions in the queue''] d of
                       Returned _ d' \<Rightarrow> Returned False d'
                     | Exited x \<Rightarrow> Exited x
                     | OutOfFuel x \<Rightarrow> OutOfFuel x)
               else Returned success d) of
           Returned success1 d1 \<Rightarrow>
             (case (if \<not> assertions_passed d1
                    then (case Driver_error [Str ''Not all assertions passed''] d1 of
                            Returned _ d' \<Rightarrow> Returned False d'
                          | Exited x \<Rightarrow> Exited x
                          | OutOfFuel x \<Rightarrow> OutOfFuel x)
                    else Returned success1 d1) of
                Returned success2 d2 \<Rightarrow>
                  (if success2
                   then Returned True (Driver_log [Str ''All tests passed.''] d2)
                   else (case Driver_error [Str ''Errors occurred''] d2 of
                           Returned _ d' \<Rightarrow> Returned False d'
                         | Exited x \<Rightarrow> Exited x
                         | OutOfFuel x \<Rightarrow> OutOfFuel x))
              | Exited x \<Rightarrow> Exited x
              | OutOfFuel x \<Rightarrow> OutOfFuel x)
         | Exited x \<Rightarrow> Exited x
         | OutOfFuel x \<Rightarrow> OutOfFuel x)"

section \<open>Observations on traces and states\<close>

text \<open>
  Counting functions on traces (evaluations of one assertion, failed evaluations, error
  lines, scans of the firmware, bindings in order), the state an outcome ends in, and
  the relations between the state before and after a report (\<open>report_step\<close>), the reports
  of one scan (\<open>reports_step\<close>), one cycle (\<open>cycle_step\<close>) and a run of cycles
  (\<open>cycles_run\<close>) that the proofs compose. \<open>frame\<close> collects what no operation changes:
  the configuration, the permanent collections, the trace read so far, and the pass flag
  as the conjunction of the evaluations. \<open>log_if\<close>, \<open>eval_block\<close> and \<open>clear_block\<close> name
  the conditional blocks of \<open>cycleInternal\<close>, \<open>cycles\<close> and \<open>skipTime\<close>;
  \<open>requested_cycles\<close> is the count \<open>cycles\<close> runs. For concrete instances:
  \<open>idle_Driver\<close> is a driver with nothing registered, \<open>strict_Driver\<close> the same with the
  strict flag set, \<open>passing\<close> makes every assertion hold, and \<open>no_report\<close> and
  \<open>one_report\<close> are firmwares that send no report, and one report, in each scan;
  \<open>zero_Driver\<close> is \<open>idle_Driver\<close> with a cycle duration of zero; \<open>counting_Driver\<close>,
  \<open>counting\<close> and \<open>even_report\<close> are a driver whose reports are numbers, a firmware that
  sends 0, 1, 2, ... in successive scans, and an assertion that holds of even reports.
  \<open>scan_reports\<close> lists the reports of \<open>k\<close> successive scans, and \<open>evals_on\<close> says that
  the evaluations of one assertion between two states are the results of \<^verbatim>\<open>eval()\<close> in
  states with the given current reports, in order.
\<close>

fun is_eval_of :: "aref \<Rightarrow> event \<Rightarrow> bool" where
  "is_eval_of a (Eval b r) = (a = b)"
| "is_eval_of a e = False"

fun is_failed_eval :: "event \<Rightarrow> bool" where
  "is_failed_eval (Eval b r) = (\<not> r)"
| "is_failed_eval e = False"

fun is_error :: "event \<Rightarrow> bool" where
  "is_error (Error_out m) = True"
| "is_error e = False"

fun is_scan :: "event \<Rightarrow> bool" where
  "is_scan Subject_loop = True"
| "is_scan e = False"

definition evals_of :: "aref \<Rightarrow> event list \<Rightarrow> nat" where
  "evals_of a tr = length (filter (is_eval_of a) tr)"

definition fails_of :: "event list \<Rightarrow> nat" where
  "fails_of tr = length (filter is_failed_eval tr)"

definition errors_of :: "event list \<Rightarrow> nat" where
  "errors_of tr = length (filter is_error tr)"

definition binds_of :: "event list \<Rightarrow> aref list" where
  "binds_of tr = concat (map (\<lambda>e. case e of SetDriver a \<Rightarrow> [a] | _ \<Rightarrow> []) tr)"

definition scans_of :: "event list \<Rightarrow> nat" where
  "scans_of tr = length (filter is_scan tr)"

fun state_of :: "('a, 's) outcome \<Rightarrow> 's" where
  "state_of (Returned v s) = s"
| "state_of (Exited s) = s"
| "state_of (OutOfFuel s) = s"

definition frame :: "'r Driver \<Rightarrow> 'r Driver \<Rightarrow> bool" where
  "frame d d' \<longleftrightarrow>
     debug d' = debug d \<and> cycle_duration d' = cycle_duration d \<and>
     abort_on_first_error d' = abort_on_first_error d \<and>
     error_if_report_without_queued_assertions d' = error_if_report_without_queued_assertions d \<and>
     scan_cycles_default_count d' = scan_cycles_default_count d \<and>
     permanent_keyboard_report_assertions d' = permanent_keyboard_report_assertions d \<and>
     permanent_cycle_assertions d' = permanent_cycle_assertions d \<and>
     prefix (trace d) (trace d') \<and>
     (assertions_passed d' \<longleftrightarrow> assertions_passed d \<and> fails_of (trace d') = fails_of (trace d))"

definition report_step :: "'r \<Rightarrow> 'r Driver \<Rightarrow> 'r Driver \<Rightarrow> bool" where
  "report_step r d d' \<longleftrightarrow>
     frame d d' \<and> cycle_id d' = cycle_id d \<and> time d' = time d \<and>
     queued_cycle_assertions d' = queued_cycle_assertions d \<and>
     queued_keyboard_report_assertions d' = tl (queued_keyboard_report_assertions d) \<and>
     n_keyboard_reports_in_cycle d' = n_keyboard_reports_in_cycle d + 1 \<and>
     n_overall_keyboard_reports d' = n_overall_keyboard_reports d + 1 \<and>
     current_keyboard_report d' = r \<and>
     scans_of (trace d') = scans_of (trace d) \<and>
     binds_of (trace d') = binds_of (trace d) \<and>
     errors_of (trace d') = errors_of (trace d) +
       (if queued_keyboard_report_assertions d = [] \<and>
           error_if_report_without_queued_assertions d then 1 else 0) \<and>
     (\<forall>b. evals_of b (trace d') = evals_of b (trace d) +
        (case queued_keyboard_report_assertions d of [] \<Rightarrow> 0 | a # q \<Rightarrow> if b = a then 1 else 0) +
        count_list (permanent_keyboard_report_assertions d) b)"

definition reports_step :: "'r list \<Rightarrow> 'r Driver \<Rightarrow> 'r Driver \<Rightarrow> bool" where
  "reports_step rs d d' \<longleftrightarrow>
     frame d d' \<and> cycle_id d' = cycle_id d \<and> time d' = time d \<and>
     queued_cycle_assertions d' = queued_cycle_assertions d \<and>
     queued_keyboard_report_assertions d' = drop (length rs) (queued_keyboard_report_assertions d) \<and>
     n_keyboard_reports_in_cycle d' = n_keyboard_reports_in_cycle d + int (length rs) \<and>
     n_overall_keyboard_reports d' = n_overall_keyboard_reports d + int (length rs) \<and>
     scans_of (trace d') = scans_of (trace d) \<and>
     binds_of (trace d') = binds_of (trace d) \<and>
     (\<forall>b. evals_of b (trace d') = evals_of b (trace d) +
        count_list (take (length rs) (queued_keyboard_report_assertions d)) b +
        length rs * count_list (permanent_keyboard_report_assertions d) b)"

definition log_if :: "bool \<Rightarrow> item list \<Rightarrow> 'r Driver \<Rightarrow> 'r Driver" where
  "log_if c m d = (if c then Driver_log m d else d)"

definition eval_block ::
  "(aref \<Rightarrow> 'r Driver \<Rightarrow> bool) \<Rightarrow> item list \<Rightarrow> aref list \<Rightarrow> 'r Driver \<Rightarrow> 'r Driver" where
  "eval_block ev m l d = (if l \<noteq> [] then processCycleAssertions ev l (Driver_log m d) else d)"

definition clear_block ::
  "(aref \<Rightarrow> 'r Driver \<Rightarrow> bool) \<Rightarrow> item list \<Rightarrow> 'r Driver \<Rightarrow> 'r Driver" where
  "clear_block ev m d =
     (if queued_cycle_assertions d \<noteq> []
      then (processCycleAssertions ev (queued_cycle_assertions d) (Driver_log m d))
             \<lparr>queued_cycle_assertions := []\<rparr>
      else d)"

definition cycle_step :: "aref list \<Rightarrow> nat \<Rightarrow> 'r Driver \<Rightarrow> 'r Driver \<Rightarrow> bool" where
  "cycle_step l k d d' \<longleftrightarrow>
     frame d d' \<and> cycle_id d' = cycle_id d + 1 \<and> time d' = time d + cycle_duration d \<and>
     n_overall_keyboard_reports d' = n_overall_keyboard_reports d + int k \<and>
     queued_cycle_assertions d' = [] \<and>
     queued_keyboard_report_assertions d' = drop k (queued_keyboard_report_assertions d) \<and>
     scans_of (trace d') = scans_of (trace d) + 1 \<and>
     binds_of (trace d') = binds_of (trace d) \<and>
     (\<forall>b. evals_of b (trace d') = evals_of b (trace d) +
        count_list (take k (queued_keyboard_report_assertions d)) b +
        k * count_list (permanent_keyboard_report_assertions d) b +
        count_list l b + count_list (queued_cycle_assertions d) b +
        count_list (permanent_cycle_assertions d) b)"

definition idle_Driver :: "unit Driver" where
  "idle_Driver =
     \<lparr>trace = [], debug = False, cycle_duration = 10, abort_on_first_error = False,
      queued_keyboard_report_assertions = [], permanent_keyboard_report_assertions = [],
      queued_cycle_assertions = [], permanent_cycle_assertions = [],
      current_keyboard_report = (), n_overall_keyboard_reports = 0,
      n_keyboard_reports_in_cycle = 0, cycle_id = 0, time = 0, assertions_passed = True,
      error_if_report_without_queued_assertions = False, scan_cycles_default_count = 5\<rparr>"

fun is_output :: "event \<Rightarrow> bool" where
  "is_output (Log_out m) = True"
| "is_output (Error_out m) = True"
| "is_output e = False"

definition cycles_run :: "int \<Rightarrow> 'r Driver \<Rightarrow> 'r Driver \<Rightarrow> bool" where
  "cycles_run k d d' \<longleftrightarrow>
     frame d d' \<and> cycle_id d' = cycle_id d + k \<and>
     time d' = time d + k * cycle_duration d \<and>
     scans_of (trace d') = scans_of (trace d) + nat k \<and>
     binds_of (trace d') = binds_of (trace d)"

definition unqueued :: "aref \<Rightarrow> 'r Driver \<Rightarrow> bool" where
  "unqueued a d \<longleftrightarrow>
     a \<notin> set (queued_keyboard_report_assertions d) \<and>
     a \<notin> set (queued_cycle_assertions d) \<and>
     a \<notin> set (permanent_cycle_assertions d)"

definition no_assertions :: "'r Driver \<Rightarrow> bool" where
  "no_assertions d \<longleftrightarrow>
     queued_keyboard_report_assertions d = [] \<and> permanent_keyboard_report_assertions d = [] \<and>
     queued_cycle_assertions d = [] \<and> permanent_cycle_assertions d = []"

definition requested_cycles :: "int \<Rightarrow> 'r Driver \<Rightarrow> int" where
  "requested_cycles n d = (if n = 0 then scan_cycles_default_count d else n)"


definition passing :: "aref \<Rightarrow> unit Driver \<Rightarrow> bool" where
  "passing a d = True"

definition no_report :: "unit \<Rightarrow> unit list \<times> unit" where
  "no_report w = ([], w)"

definition one_report :: "unit \<Rightarrow> unit list \<times> unit" where
  "one_report w = ([()], w)"

definition zero_Driver :: "unit Driver" where
  "zero_Driver = idle_Driver\<lparr>cycle_duration := 0\<rparr>"

definition evals_on ::
  "(aref \<Rightarrow> 'r Driver \<Rightarrow> bool) \<Rightarrow> aref \<Rightarrow> 'r Driver \<Rightarrow> 'r Driver \<Rightarrow> 'r list \<Rightarrow> bool" where
  "evals_on ev a d d' rs \<longleftrightarrow>
     (\<exists>new drs. trace d' = trace d @ new \<and> map current_keyboard_report drs = rs \<and>
        filter (is_eval_of a) new = map (\<lambda>dr. Eval a (ev a dr)) drs)"

fun scan_reports :: "('w \<Rightarrow> 'r list \<times> 'w) \<Rightarrow> 'w \<Rightarrow> nat \<Rightarrow> 'r list" where
  "scan_reports loop w 0 = []"
| "scan_reports loop w (Suc k) = fst (loop w) @ scan_reports loop (snd (loop w)) k"

definition counting_Driver :: "nat Driver" where
  "counting_Driver =
     \<lparr>trace = [], debug = False, cycle_duration = 10, abort_on_first_error = False,
      queued_keyboard_report_assertions = [], permanent_keyboard_report_assertions = [],
      queued_cycle_assertions = [], permanent_cycle_assertions = [],
      current_keyboard_report = 0, n_overall_keyboard_reports = 0,
      n_keyboard_reports_in_cycle = 0, cycle_id = 0, time = 0, assertions_passed = True,
      error_if_report_without_queued_assertions = False, scan_cycles_default_count = 5\<rparr>"

definition counting :: "nat \<Rightarrow> nat list \<times> nat" where
  "counting w = ([w], Suc w)"

definition even_report :: "aref \<Rightarrow> nat Driver \<Rightarrow> bool" where
  "even_report a d = even (current_keyboard_report d)"

section \<open>Auxiliary lemmas\<close>

lemma evals_of_simps [simp]:
  "evals_of a [] = 0"
  "evals_of a (e # tr) = (if is_eval_of a e then 1 else 0) + evals_of a tr"
  "evals_of a (tr @ tr') = evals_of a tr + evals_of a tr'"
  by (simp_all add: evals_of_def)

lemma fails_of_simps [simp]:
  "fails_of [] = 0"
  "fails_of (e # tr) = (if is_failed_eval e then 1 else 0) + fails_of tr"
  "fails_of (tr @ tr') = fails_of tr + fails_of tr'"
  by (simp_all add: fails_of_def)

lemma errors_of_simps [simp]:
  "errors_of [] = 0"
  "errors_of (e # tr) = (if is_error e then 1 else 0) + errors_of tr"
  "errors_of (tr @ tr') = errors_of tr + errors_of tr'"
  by (simp_all add: errors_of_def)

lemma scans_of_simps [simp]:
  "scans_of [] = 0"
  "scans_of (e # tr) = (if is_scan e then 1 else 0) + scans_of tr"
  "scans_of (tr @ tr') = scans_of tr + scans_of tr'"
  by (simp_all add: scans_of_def)

lemma binds_of_simps [simp]:
  "binds_of [] = []"
  "binds_of (e # tr) = (case e of SetDriver a \<Rightarrow> [a] | _ \<Rightarrow> []) @ binds_of tr"
  "binds_of (tr @ tr') = binds_of tr @ binds_of tr'"
  by (simp_all add: binds_of_def)

lemma fails_of_prefix: "prefix tr tr' \<Longrightarrow> fails_of tr \<le> fails_of tr'"
  by (auto simp: prefix_def)

lemma frame_refl [simp]: "frame d d"
  by (simp add: frame_def)

lemma frame_trans: "frame d d' \<Longrightarrow> frame d' d'' \<Longrightarrow> frame d d''"
  unfolding frame_def
  using fails_of_prefix[of "trace d" "trace d'"] fails_of_prefix[of "trace d'" "trace d''"]
  by (auto dest: prefix_order.trans)

lemma frame_log [simp]: "frame d (Driver_log m d)"
  by (simp add: frame_def Driver_log_def)

lemma frame_PKRA: "frame d (processKeyboardReportAssertion ev a d)"
  by (simp add: frame_def processKeyboardReportAssertion_def Let_def)

lemma frame_fold_PKRA: "frame d (fold (processKeyboardReportAssertion ev) xs d)"
proof (induction xs arbitrary: d)
  case Nil
  show ?case by simp
next
  case (Cons a xs)
  show ?case
    using frame_trans[OF frame_PKRA Cons.IH] by simp
qed

lemma PKRA_fields [simp]:
  "debug (processKeyboardReportAssertion ev a d) = debug d"
  "cycle_duration (processKeyboardReportAssertion ev a d) = cycle_duration d"
  "abort_on_first_error (processKeyboardReportAssertion ev a d) = abort_on_first_error d"
  "error_if_report_without_queued_assertions (processKeyboardReportAssertion ev a d) =
     error_if_report_without_queued_assertions d"
  "scan_cycles_default_count (processKeyboardReportAssertion ev a d) = scan_cycles_default_count d"
  "queued_keyboard_report_assertions (processKeyboardReportAssertion ev a d) =
     queued_keyboard_report_assertions d"
  "permanent_keyboard_report_assertions (processKeyboardReportAssertion ev a d) =
     permanent_keyboard_report_assertions d"
  "queued_cycle_assertions (processKeyboardReportAssertion ev a d) = queued_cycle_assertions d"
  "permanent_cycle_assertions (processKeyboardReportAssertion ev a d) = permanent_cycle_assertions d"
  "current_keyboard_report (processKeyboardReportAssertion ev a d) = current_keyboard_report d"
  "n_overall_keyboard_reports (processKeyboardReportAssertion ev a d) = n_overall_keyboard_reports d"
  "n_keyboard_reports_in_cycle (processKeyboardReportAssertion ev a d) = n_keyboard_reports_in_cycle d"
  "cycle_id (processKeyboardReportAssertion ev a d) = cycle_id d"
  "time (processKeyboardReportAssertion ev a d) = time d"
  by (simp_all add: processKeyboardReportAssertion_def Let_def)

lemma PKRA_counts [simp]:
  "evals_of b (trace (processKeyboardReportAssertion ev a d)) =
     evals_of b (trace d) + (if b = a then 1 else 0)"
  "errors_of (trace (processKeyboardReportAssertion ev a d)) = errors_of (trace d)"
  "scans_of (trace (processKeyboardReportAssertion ev a d)) = scans_of (trace d)"
  "binds_of (trace (processKeyboardReportAssertion ev a d)) = binds_of (trace d)"
  by (simp_all add: processKeyboardReportAssertion_def Let_def)

lemma fold_PKRA_fields [simp]:
  "debug (fold (processKeyboardReportAssertion ev) xs d) = debug d"
  "cycle_duration (fold (processKeyboardReportAssertion ev) xs d) = cycle_duration d"
  "abort_on_first_error (fold (processKeyboardReportAssertion ev) xs d) = abort_on_first_error d"
  "error_if_report_without_queued_assertions (fold (processKeyboardReportAssertion ev) xs d) =
     error_if_report_without_queued_assertions d"
  "scan_cycles_default_count (fold (processKeyboardReportAssertion ev) xs d) =
     scan_cycles_default_count d"
  "queued_keyboard_report_assertions (fold (processKeyboardReportAssertion ev) xs d) =
     queued_keyboard_report_assertions d"
  "permanent_keyboard_report_assertions (fold (processKeyboardReportAssertion ev) xs d) =
     permanent_keyboard_report_assertions d"
  "queued_cycle_assertions (fold (processKeyboardReportAssertion ev) xs d) =
     queued_cycle_assertions d"
  "permanent_cycle_assertions (fold (processKeyboardReportAssertion ev) xs d) =
     permanent_cycle_assertions d"
  "current_keyboard_report (fold (processKeyboardReportAssertion ev) xs d) =
     current_keyboard_report d"
  "n_overall_keyboard_reports (fold (processKeyboardReportAssertion ev) xs d) =
     n_overall_keyboard_reports d"
  "n_keyboard_reports_in_cycle (fold (processKeyboardReportAssertion ev) xs d) =
     n_keyboard_reports_in_cycle d"
  "cycle_id (fold (processKeyboardReportAssertion ev) xs d) = cycle_id d"
  "time (fold (processKeyboardReportAssertion ev) xs d) = time d"
  by (induction xs arbitrary: d; simp)+

lemma fold_PKRA_counts [simp]:
  "evals_of b (trace (fold (processKeyboardReportAssertion ev) xs d)) =
     evals_of b (trace d) + count_list xs b"
  "errors_of (trace (fold (processKeyboardReportAssertion ev) xs d)) = errors_of (trace d)"
  "scans_of (trace (fold (processKeyboardReportAssertion ev) xs d)) = scans_of (trace d)"
  "binds_of (trace (fold (processKeyboardReportAssertion ev) xs d)) = binds_of (trace d)"
  by (induction xs arbitrary: d; simp)+

lemma frame_step:
  "frame d0 d \<Longrightarrow> frame d0 (Driver_log m d)"
  "frame d0 d \<Longrightarrow> frame d0 (processKeyboardReportAssertion ev a d)"
  "frame d0 d \<Longrightarrow> frame d0 (fold (processKeyboardReportAssertion ev) xs d)"
  "frame d0 d \<Longrightarrow> frame d0 (processCycleAssertions ev xs d)"
  "frame d0 d \<Longrightarrow> frame d0 (setDriver a d)"
proof -
  show "frame d0 d \<Longrightarrow> frame d0 (Driver_log m d)"
    by (rule frame_trans[OF _ frame_log])
  show "frame d0 d \<Longrightarrow> frame d0 (processKeyboardReportAssertion ev a d)"
    by (rule frame_trans[OF _ frame_PKRA])
  show "frame d0 d \<Longrightarrow> frame d0 (fold (processKeyboardReportAssertion ev) xs d)"
    by (rule frame_trans[OF _ frame_fold_PKRA])
  show "frame d0 d \<Longrightarrow> frame d0 (processCycleAssertions ev xs d)"
    unfolding processCycleAssertions_def by (rule frame_trans[OF _ frame_fold_PKRA])
  show "frame d0 d \<Longrightarrow> frame d0 (setDriver a d)"
    by (simp add: frame_def setDriver_def)
qed

lemma frame_upd:
  "frame d0 d \<Longrightarrow> frame d0 (d\<lparr>current_keyboard_report := r\<rparr>)"
  "frame d0 d \<Longrightarrow> frame d0 (d\<lparr>n_overall_keyboard_reports := i\<rparr>)"
  "frame d0 d \<Longrightarrow> frame d0 (d\<lparr>n_keyboard_reports_in_cycle := i\<rparr>)"
  "frame d0 d \<Longrightarrow> frame d0 (d\<lparr>cycle_id := i\<rparr>)"
  "frame d0 d \<Longrightarrow> frame d0 (d\<lparr>time := i\<rparr>)"
  "frame d0 d \<Longrightarrow> frame d0 (d\<lparr>queued_keyboard_report_assertions := q\<rparr>)"
  "frame d0 d \<Longrightarrow> frame d0 (d\<lparr>queued_cycle_assertions := q\<rparr>)"
  "frame d0 d \<Longrightarrow> \<not> is_failed_eval e \<Longrightarrow> frame d0 (d\<lparr>trace := trace d @ [e]\<rparr>)"
  by (auto simp: frame_def)

lemma Driver_log_fields [simp]:
  "debug (Driver_log m d) = debug d"
  "cycle_duration (Driver_log m d) = cycle_duration d"
  "abort_on_first_error (Driver_log m d) = abort_on_first_error d"
  "error_if_report_without_queued_assertions (Driver_log m d) =
     error_if_report_without_queued_assertions d"
  "scan_cycles_default_count (Driver_log m d) = scan_cycles_default_count d"
  "queued_keyboard_report_assertions (Driver_log m d) = queued_keyboard_report_assertions d"
  "permanent_keyboard_report_assertions (Driver_log m d) = permanent_keyboard_report_assertions d"
  "queued_cycle_assertions (Driver_log m d) = queued_cycle_assertions d"
  "permanent_cycle_assertions (Driver_log m d) = permanent_cycle_assertions d"
  "current_keyboard_report (Driver_log m d) = current_keyboard_report d"
  "n_overall_keyboard_reports (Driver_log m d) = n_overall_keyboard_reports d"
  "n_keyboard_reports_in_cycle (Driver_log m d) = n_keyboard_reports_in_cycle d"
  "cycle_id (Driver_log m d) = cycle_id d"
  "time (Driver_log m d) = time d"
  "assertions_passed (Driver_log m d) = assertions_passed d"
  by (simp_all add: Driver_log_def)

lemma Driver_log_counts [simp]:
  "evals_of b (trace (Driver_log m d)) = evals_of b (trace d)"
  "errors_of (trace (Driver_log m d)) = errors_of (trace d)"
  "scans_of (trace (Driver_log m d)) = scans_of (trace d)"
  "binds_of (trace (Driver_log m d)) = binds_of (trace d)"
  "fails_of (trace (Driver_log m d)) = fails_of (trace d)"
  by (simp_all add: Driver_log_def)

lemma PKR_outcome:
  "\<exists>d'. processKeyboardReport ev r d =
          (if queued_keyboard_report_assertions d = [] \<and>
              error_if_report_without_queued_assertions d \<and> abort_on_first_error d
           then Exited d' else Returned () d') \<and> report_step r d d'"
  by (auto simp: processKeyboardReport_def Let_def popFront_def directAccess_def Driver_error_def
     report_step_def split: list.split intro!: frame_step frame_upd)

lemma report_step_frame: "report_step r d d' \<Longrightarrow> frame d d'"
  by (simp add: report_step_def)

lemma reports_step_frame: "reports_step rs d d' \<Longrightarrow> frame d d'"
  by (simp add: reports_step_def)

lemma consumer_outcome:
  "\<exists>d'. KeyboardReportConsumer_processKeyboardReport ev r d =
          (if queued_keyboard_report_assertions d = [] \<and>
              error_if_report_without_queued_assertions d \<and> abort_on_first_error d
           then Exited d' else Returned () d') \<and> report_step r d d'"
proof -
  let ?d0 = "d\<lparr>trace := trace d @ [Stdout ''************* Processing keyboard report'']\<rparr>"
  obtain d' where d': "processKeyboardReport ev r ?d0 =
          (if queued_keyboard_report_assertions ?d0 = [] \<and>
              error_if_report_without_queued_assertions ?d0 \<and> abort_on_first_error ?d0
           then Exited d' else Returned () d')" and st: "report_step r ?d0 d'"
    using PKR_outcome[of ev r ?d0] by blast
  have "frame d ?d0" by (simp add: frame_def)
  then have "frame d d'"
    using report_step_frame[OF st] by (rule frame_trans)
  with st have "report_step r d d'"
    by (simp add: report_step_def)
  with d' show ?thesis
    by (auto simp: KeyboardReportConsumer_processKeyboardReport_def)
qed

lemma reports_step_Cons:
  assumes "report_step r d d1" "reports_step rs d1 d'"
  shows "reports_step (r # rs) d d'"
proof -
  have fr: "frame d d'"
    using report_step_frame[OF assms(1)] reports_step_frame[OF assms(2)] by (rule frame_trans)
  have p: "permanent_keyboard_report_assertions d1 = permanent_keyboard_report_assertions d"
    using report_step_frame[OF assms(1)] by (simp add: frame_def)
  show ?thesis
  proof (cases "queued_keyboard_report_assertions d")
    case Nil
    with assms fr p show ?thesis
      by (simp add: report_step_def reports_step_def)
  next
    case (Cons a q)
    with assms fr p show ?thesis
      by (simp add: report_step_def reports_step_def drop_Suc)
  qed
qed

lemma frame_flags:
  "frame d d' \<Longrightarrow> abort_on_first_error d' = abort_on_first_error d"
  "frame d d' \<Longrightarrow> error_if_report_without_queued_assertions d' =
     error_if_report_without_queued_assertions d"
  "frame d d' \<Longrightarrow> cycle_duration d' = cycle_duration d"
  "frame d d' \<Longrightarrow> debug d' = debug d"
  "frame d d' \<Longrightarrow> scan_cycles_default_count d' = scan_cycles_default_count d"
  "frame d d' \<Longrightarrow> permanent_keyboard_report_assertions d' = permanent_keyboard_report_assertions d"
  "frame d d' \<Longrightarrow> permanent_cycle_assertions d' = permanent_cycle_assertions d"
  by (simp_all add: frame_def)

lemma deliver_outcome:
  "(\<exists>d'. deliver ev rs d = Returned () d' \<and> reports_step rs d d') \<or>
   (\<exists>d'. deliver ev rs d = Exited d' \<and> frame d d' \<and>
      abort_on_first_error d \<and> error_if_report_without_queued_assertions d)"
proof (induction rs arbitrary: d)
  case Nil
  show ?case by (simp add: reports_step_def)
next
  case (Cons r rs)
  obtain d1 where d1: "KeyboardReportConsumer_processKeyboardReport ev r d =
          (if queued_keyboard_report_assertions d = [] \<and>
              error_if_report_without_queued_assertions d \<and> abort_on_first_error d
           then Exited d1 else Returned () d1)" and rs: "report_step r d d1"
    using consumer_outcome[of ev r d] by blast
  from rs have fr: "frame d d1" by (rule report_step_frame)
  show ?case
  proof (cases "queued_keyboard_report_assertions d = [] \<and>
              error_if_report_without_queued_assertions d \<and> abort_on_first_error d")
    case True
    with d1 have "deliver ev (r # rs) d = Exited d1" by simp
    with True fr show ?thesis by blast
  next
    case False
    with d1 have eq: "deliver ev (r # rs) d = deliver ev rs d1" by simp
    from Cons.IH[of d1] show ?thesis
    proof
      assume "\<exists>d'. deliver ev rs d1 = Returned () d' \<and> reports_step rs d1 d'"
      then obtain d' where "deliver ev rs d1 = Returned () d'" "reports_step rs d1 d'" by blast
      then have "deliver ev (r # rs) d = Returned () d'" "reports_step (r # rs) d d'"
        using eq reports_step_Cons[OF rs] by simp_all
      then show ?thesis by blast
    next
      assume "\<exists>d'. deliver ev rs d1 = Exited d' \<and> frame d1 d' \<and>
         abort_on_first_error d1 \<and> error_if_report_without_queued_assertions d1"
      then obtain d' where "deliver ev rs d1 = Exited d'" "frame d1 d'"
         "abort_on_first_error d1" "error_if_report_without_queued_assertions d1" by blast
      then have "deliver ev (r # rs) d = Exited d'" "frame d d'"
         "abort_on_first_error d" "error_if_report_without_queued_assertions d"
        using eq frame_trans[OF fr] frame_flags[OF fr] by simp_all
      then show ?thesis by blast
    qed
  qed
qed

lemma deliver_not_OutOfFuel: "deliver ev rs d = OutOfFuel x \<Longrightarrow> False"
  using deliver_outcome[of ev rs d] by auto

lemma call_loop_Returned:
  assumes "call_loop ev loop d w = Returned u (d', w')"
  shows "w' = snd (loop w) \<and>
         reports_step (fst (loop w)) (d\<lparr>trace := trace d @ [Subject_loop]\<rparr>) d'"
  using assms deliver_outcome[of ev "fst (loop w)" "d\<lparr>trace := trace d @ [Subject_loop]\<rparr>"]
  by (auto simp: call_loop_def split: prod.splits outcome.splits)

lemma call_loop_Exited:
  assumes "call_loop ev loop d w = Exited x"
  shows "snd x = w \<and> frame (d\<lparr>trace := trace d @ [Subject_loop]\<rparr>) (fst x) \<and>
         abort_on_first_error d \<and> error_if_report_without_queued_assertions d"
  using assms deliver_outcome[of ev "fst (loop w)" "d\<lparr>trace := trace d @ [Subject_loop]\<rparr>"]
  by (auto simp: call_loop_def split: prod.splits outcome.splits)

lemma call_loop_not_OutOfFuel: "call_loop ev loop d w = OutOfFuel x \<Longrightarrow> False"
  by (auto simp: call_loop_def split: prod.splits outcome.splits dest: deliver_not_OutOfFuel)

lemma cycleInternal_alt:
  "cycleInternal ev loop l olr d w =
     (case call_loop ev loop
             (log_if (\<not> olr) [Str ''Scan cycle '', Num (cycle_id d + 1)]
                (d\<lparr>cycle_id := cycle_id d + 1, n_keyboard_reports_in_cycle := 0\<rparr>)) w of
        Returned _ (d5, w') \<Rightarrow>
          (let d6 = (if n_keyboard_reports_in_cycle d5 = 0
                     then log_if (\<not> olr) [Str ''No keyboard reports processed''] d5
                     else Driver_log [Num (n_keyboard_reports_in_cycle d5),
                                      Str '' keyboard reports processed''] d5);
               d7 = d6\<lparr>time := time d6 + cycle_duration d6\<rparr>;
               d8 = eval_block ev [Str ''Processing '', Num (int (length l)),
                                   Str '' cycle assertions on stop''] l d7;
               d9 = clear_block ev [Str ''Processing '',
                                    Num (int (length (queued_cycle_assertions d8))),
                                    Str '' queued cycle assertions''] d8;
               d10 = eval_block ev [Str ''Processing '',
                                    Num (int (length (permanent_cycle_assertions d9))),
                                    Str '' permanent cycle assertions'']
                       (permanent_cycle_assertions d9) d9
           in Returned () (d10, w'))
      | Exited x \<Rightarrow> Exited x
      | OutOfFuel x \<Rightarrow> OutOfFuel x)"
  unfolding cycleInternal_def log_if_def eval_block_def clear_block_def directAccess_def
  by (cases "l = []") simp_all

lemma processCycleAssertions_fields [simp]:
  "debug (processCycleAssertions ev l d) = debug d"
  "cycle_duration (processCycleAssertions ev l d) = cycle_duration d"
  "abort_on_first_error (processCycleAssertions ev l d) = abort_on_first_error d"
  "error_if_report_without_queued_assertions (processCycleAssertions ev l d) = error_if_report_without_queued_assertions d"
  "scan_cycles_default_count (processCycleAssertions ev l d) = scan_cycles_default_count d"
  "queued_keyboard_report_assertions (processCycleAssertions ev l d) = queued_keyboard_report_assertions d"
  "permanent_keyboard_report_assertions (processCycleAssertions ev l d) = permanent_keyboard_report_assertions d"
  "queued_cycle_assertions (processCycleAssertions ev l d) = queued_cycle_assertions d"
  "permanent_cycle_assertions (processCycleAssertions ev l d) = permanent_cycle_assertions d"
  "current_keyboard_report (processCycleAssertions ev l d) = current_keyboard_report d"
  "n_overall_keyboard_reports (processCycleAssertions ev l d) = n_overall_keyboard_reports d"
  "n_keyboard_reports_in_cycle (processCycleAssertions ev l d) = n_keyboard_reports_in_cycle d"
  "cycle_id (processCycleAssertions ev l d) = cycle_id d"
  "time (processCycleAssertions ev l d) = time d"
  by (simp_all add: processCycleAssertions_def)

lemma processCycleAssertions_counts [simp]:
  "evals_of b (trace (processCycleAssertions ev l d)) = evals_of b (trace d) + count_list l b"
  "errors_of (trace (processCycleAssertions ev l d)) = errors_of (trace d)"
  "scans_of (trace (processCycleAssertions ev l d)) = scans_of (trace d)"
  "binds_of (trace (processCycleAssertions ev l d)) = binds_of (trace d)"
  by (simp_all add: processCycleAssertions_def)

lemma log_if_fields [simp]:
  "debug (log_if c m d) = debug d"
  "cycle_duration (log_if c m d) = cycle_duration d"
  "abort_on_first_error (log_if c m d) = abort_on_first_error d"
  "error_if_report_without_queued_assertions (log_if c m d) = error_if_report_without_queued_assertions d"
  "scan_cycles_default_count (log_if c m d) = scan_cycles_default_count d"
  "queued_keyboard_report_assertions (log_if c m d) = queued_keyboard_report_assertions d"
  "permanent_keyboard_report_assertions (log_if c m d) = permanent_keyboard_report_assertions d"
  "queued_cycle_assertions (log_if c m d) = queued_cycle_assertions d"
  "permanent_cycle_assertions (log_if c m d) = permanent_cycle_assertions d"
  "current_keyboard_report (log_if c m d) = current_keyboard_report d"
  "n_overall_keyboard_reports (log_if c m d) = n_overall_keyboard_reports d"
  "n_keyboard_reports_in_cycle (log_if c m d) = n_keyboard_reports_in_cycle d"
  "cycle_id (log_if c m d) = cycle_id d"
  "time (log_if c m d) = time d"
  "assertions_passed (log_if c m d) = assertions_passed d"
  by (simp_all add: log_if_def)

lemma log_if_counts [simp]:
  "evals_of b (trace (log_if c m d)) = evals_of b (trace d)"
  "errors_of (trace (log_if c m d)) = errors_of (trace d)"
  "scans_of (trace (log_if c m d)) = scans_of (trace d)"
  "binds_of (trace (log_if c m d)) = binds_of (trace d)"
  "fails_of (trace (log_if c m d)) = fails_of (trace d)"
  by (simp_all add: log_if_def)

lemma eval_block_fields [simp]:
  "debug (eval_block ev m l d) = debug d"
  "cycle_duration (eval_block ev m l d) = cycle_duration d"
  "abort_on_first_error (eval_block ev m l d) = abort_on_first_error d"
  "error_if_report_without_queued_assertions (eval_block ev m l d) = error_if_report_without_queued_assertions d"
  "scan_cycles_default_count (eval_block ev m l d) = scan_cycles_default_count d"
  "queued_keyboard_report_assertions (eval_block ev m l d) = queued_keyboard_report_assertions d"
  "permanent_keyboard_report_assertions (eval_block ev m l d) = permanent_keyboard_report_assertions d"
  "queued_cycle_assertions (eval_block ev m l d) = queued_cycle_assertions d"
  "permanent_cycle_assertions (eval_block ev m l d) = permanent_cycle_assertions d"
  "current_keyboard_report (eval_block ev m l d) = current_keyboard_report d"
  "n_overall_keyboard_reports (eval_block ev m l d) = n_overall_keyboard_reports d"
  "n_keyboard_reports_in_cycle (eval_block ev m l d) = n_keyboard_reports_in_cycle d"
  "cycle_id (eval_block ev m l d) = cycle_id d"
  "time (eval_block ev m l d) = time d"
  by (simp_all add: eval_block_def)

lemma eval_block_counts [simp]:
  "evals_of b (trace (eval_block ev m l d)) = evals_of b (trace d) + count_list l b"
  "errors_of (trace (eval_block ev m l d)) = errors_of (trace d)"
  "scans_of (trace (eval_block ev m l d)) = scans_of (trace d)"
  "binds_of (trace (eval_block ev m l d)) = binds_of (trace d)"
  by (simp_all add: eval_block_def)

lemma clear_block_fields [simp]:
  "debug (clear_block ev m d) = debug d"
  "cycle_duration (clear_block ev m d) = cycle_duration d"
  "abort_on_first_error (clear_block ev m d) = abort_on_first_error d"
  "error_if_report_without_queued_assertions (clear_block ev m d) = error_if_report_without_queued_assertions d"
  "scan_cycles_default_count (clear_block ev m d) = scan_cycles_default_count d"
  "queued_keyboard_report_assertions (clear_block ev m d) = queued_keyboard_report_assertions d"
  "permanent_keyboard_report_assertions (clear_block ev m d) = permanent_keyboard_report_assertions d"
  "permanent_cycle_assertions (clear_block ev m d) = permanent_cycle_assertions d"
  "current_keyboard_report (clear_block ev m d) = current_keyboard_report d"
  "n_overall_keyboard_reports (clear_block ev m d) = n_overall_keyboard_reports d"
  "n_keyboard_reports_in_cycle (clear_block ev m d) = n_keyboard_reports_in_cycle d"
  "cycle_id (clear_block ev m d) = cycle_id d"
  "time (clear_block ev m d) = time d"
  "queued_cycle_assertions (clear_block ev m d) = []"
  by (simp_all add: clear_block_def)

lemma clear_block_counts [simp]:
  "evals_of b (trace (clear_block ev m d)) =
     evals_of b (trace d) + count_list (queued_cycle_assertions d) b"
  "errors_of (trace (clear_block ev m d)) = errors_of (trace d)"
  "scans_of (trace (clear_block ev m d)) = scans_of (trace d)"
  "binds_of (trace (clear_block ev m d)) = binds_of (trace d)"
  by (simp_all add: clear_block_def)

lemma frame_block:
  "frame d0 d \<Longrightarrow> frame d0 (log_if c m d)"
  "frame d0 d \<Longrightarrow> frame d0 (eval_block ev m l d)"
  "frame d0 d \<Longrightarrow> frame d0 (clear_block ev m d)"
  by (simp_all add: log_if_def eval_block_def clear_block_def frame_step frame_upd)

lemma cycleInternal_Returned:
  assumes "cycleInternal ev loop l olr d w = Returned u (d', w')"
  shows "w' = snd (loop w) \<and> cycle_step l (length (fst (loop w))) d d'"
proof -
  let ?d4 = "log_if (\<not> olr) [Str ''Scan cycle '', Num (cycle_id d + 1)]
                (d\<lparr>cycle_id := cycle_id d + 1, n_keyboard_reports_in_cycle := 0\<rparr>)"
  from assms obtain d5 where
    cl: "call_loop ev loop ?d4 w = Returned () (d5, w')" and
    d': "d' = (let d6 = (if n_keyboard_reports_in_cycle d5 = 0
                     then log_if (\<not> olr) [Str ''No keyboard reports processed''] d5
                     else Driver_log [Num (n_keyboard_reports_in_cycle d5),
                                      Str '' keyboard reports processed''] d5);
               d7 = d6\<lparr>time := time d6 + cycle_duration d6\<rparr>;
               d8 = eval_block ev [Str ''Processing '', Num (int (length l)),
                                   Str '' cycle assertions on stop''] l d7;
               d9 = clear_block ev [Str ''Processing '',
                                    Num (int (length (queued_cycle_assertions d8))),
                                    Str '' queued cycle assertions''] d8;
               d10 = eval_block ev [Str ''Processing '',
                                    Num (int (length (permanent_cycle_assertions d9))),
                                    Str '' permanent cycle assertions'']
                       (permanent_cycle_assertions d9) d9
           in d10)"
    unfolding cycleInternal_alt by (auto simp: Let_def split: outcome.splits)
  from call_loop_Returned[OF cl] have w': "w' = snd (loop w)" and
    rs: "reports_step (fst (loop w)) (?d4\<lparr>trace := trace ?d4 @ [Subject_loop]\<rparr>) d5"
    by simp_all
  have "frame d (?d4\<lparr>trace := trace ?d4 @ [Subject_loop]\<rparr>)"
    by (intro frame_upd frame_block) simp_all
  then have f5: "frame d d5"
    using reports_step_frame[OF rs] by (rule frame_trans)
  have f': "frame d d'"
    unfolding d' Let_def
    by (intro frame_block frame_upd frame_step if_split[where P = "frame d", THEN iffD2] conjI impI f5)
  from rs f5 have "cycle_step l (length (fst (loop w))) d d'"
    unfolding cycle_step_def d' Let_def reports_step_def
    using f' [unfolded d' Let_def]
    by (simp add: frame_flags[OF f5])
  with w' show ?thesis by simp
qed

lemma cycleInternal_Exited:
  assumes "cycleInternal ev loop l olr d w = Exited x"
  shows "snd x = w \<and> frame d (fst x) \<and>
         abort_on_first_error d \<and> error_if_report_without_queued_assertions d"
proof -
  let ?d4 = "log_if (\<not> olr) [Str ''Scan cycle '', Num (cycle_id d + 1)]
                (d\<lparr>cycle_id := cycle_id d + 1, n_keyboard_reports_in_cycle := 0\<rparr>)"
  from assms have cl: "call_loop ev loop ?d4 w = Exited x"
    unfolding cycleInternal_alt by (auto simp: Let_def split: outcome.splits)
  from call_loop_Exited[OF cl] have x: "snd x = w"
    "frame (?d4\<lparr>trace := trace ?d4 @ [Subject_loop]\<rparr>) (fst x)"
    "abort_on_first_error d" "error_if_report_without_queued_assertions d"
    by simp_all
  have "frame d (?d4\<lparr>trace := trace ?d4 @ [Subject_loop]\<rparr>)"
    by (intro frame_upd frame_block) simp_all
  then have "frame d (fst x)"
    using x(2) by (rule frame_trans)
  with x show ?thesis by simp
qed

lemma cycleInternal_not_OutOfFuel: "cycleInternal ev loop l olr d w = OutOfFuel x \<Longrightarrow> False"
  unfolding cycleInternal_alt
  by (auto simp: Let_def split: outcome.splits dest: call_loop_not_OutOfFuel)

lemma prefix_traceD: "prefix (trace d) (trace d') \<Longrightarrow> \<exists>new. trace d' = trace d @ new"
  by (auto simp: prefix_def)

lemma checkStatus_cases:
  "checkStatus d =
     (if queued_keyboard_report_assertions d \<noteq> []
      then (if abort_on_first_error d
            then Exited (d\<lparr>trace := trace d @
                   [Error_out [Str ''There are '',
                               Num (int (length (queued_keyboard_report_assertions d))),
                               Str '' left over assertions in the queue'']]\<rparr>)
            else Returned False (d\<lparr>trace := trace d @
                   ([Error_out [Str ''There are '',
                               Num (int (length (queued_keyboard_report_assertions d))),
                               Str '' left over assertions in the queue'']] @
                    (if assertions_passed d then []
                     else [Error_out [Str ''Not all assertions passed'']]) @
                    [Error_out [Str ''Errors occurred'']])\<rparr>))
      else if \<not> assertions_passed d
      then (if abort_on_first_error d
            then Exited (d\<lparr>trace := trace d @ [Error_out [Str ''Not all assertions passed'']]\<rparr>)
            else Returned False (d\<lparr>trace := trace d @
                   [Error_out [Str ''Not all assertions passed''],
                    Error_out [Str ''Errors occurred'']]\<rparr>))
      else Returned True (d\<lparr>trace := trace d @ [Log_out [Str ''All tests passed.'']]\<rparr>))"
  by (simp add: checkStatus_def Driver_error_def Driver_log_def Let_def)

lemma cycles_binds_example:
  "cycles passing no_report 1 [7] [] idle_Driver () =
     Returned () (state_of (cycles passing no_report 1 [7] [] idle_Driver ())) \<and>
   binds_of (trace (fst (state_of (cycles passing no_report 1 [7] [] idle_Driver ())))) = [7] \<and>
   evals_of 7 (trace (fst (state_of (cycles passing no_report 1 [7] [] idle_Driver ())))) = 1"
  by (simp add: cycles_def cycles_loop.simps[of _ _ 0 1] cycles_loop.simps[of _ _ 1 1]
      cycleInternal_def call_loop_def processCycleAssertions_def setDriver_def
      processKeyboardReportAssertion_def Driver_log_def Let_def idle_Driver_def
      passing_def no_report_def)

lemma cycle_step_frame: "cycle_step l k d d' \<Longrightarrow> frame d d'"
  by (simp add: cycle_step_def)

lemma cycles_loop_done:
  "\<not> i < n \<Longrightarrow> cycles_loop ev loop i n cl d w = Returned () (d, w)"
  by (subst cycles_loop.simps) simp

lemma cycles_loop_Returned:
  "i < n \<Longrightarrow> cycleInternal ev loop cl True d w = Returned u (d1, w1) \<Longrightarrow>
   cycles_loop ev loop i n cl d w = cycles_loop ev loop (i + 1) n cl d1 w1"
  by (subst cycles_loop.simps) simp

lemma cycles_loop_Exited:
  "i < n \<Longrightarrow> cycleInternal ev loop cl True d w = Exited x \<Longrightarrow>
   cycles_loop ev loop i n cl d w = Exited x"
  by (subst cycles_loop.simps) simp

lemma cycles_run_0: "cycles_run 0 d d"
  by (simp add: cycles_run_def)

lemma cycles_run_step:
  assumes "cycle_step l m d d1" "cycles_run k d1 d'" "0 \<le> k"
  shows "cycles_run (1 + k) d d'"
proof -
  have fr: "frame d d1" using assms(1) by (rule cycle_step_frame)
  have cd: "cycle_duration d1 = cycle_duration d"
    by (rule frame_flags(3)[OF fr])
  from assms(1) have c1: "cycle_id d1 = cycle_id d + 1" "time d1 = time d + cycle_duration d"
    "scans_of (trace d1) = scans_of (trace d) + 1" "binds_of (trace d1) = binds_of (trace d)"
    by (simp_all add: cycle_step_def)
  from assms(2) have c2: "frame d1 d'" "cycle_id d' = cycle_id d1 + k"
    "time d' = time d1 + k * cycle_duration d1"
    "scans_of (trace d') = scans_of (trace d1) + nat k" "binds_of (trace d') = binds_of (trace d1)"
    by (simp_all add: cycles_run_def)
  have "frame d d'" using fr c2(1) by (rule frame_trans)
  moreover have "nat (1 + k) = Suc (nat k)" using assms(3) by simp
  ultimately show ?thesis
    unfolding cycles_run_def c2 c1 cd by (simp add: algebra_simps)
qed

lemma cycles_loop_Returned_run:
  "cycles_loop ev loop i n cl d w = Returned u (d', w') \<Longrightarrow> cycles_run (max 0 (n - i)) d d'"
proof (induction ev loop i n cl d w rule: cycles_loop.induct)
  case (1 ev loop i n cl d w)
  show ?case
  proof (cases "i < n")
    case False
    from "1.prems" have "d' = d"
      unfolding cycles_loop_done[OF False] by simp
    moreover from False have "max 0 (n - i) = 0" by simp
    ultimately show ?thesis
      using cycles_run_0 by simp
  next
    case True
    show ?thesis
    proof (cases "cycleInternal ev loop cl True d w")
      case (Returned u1 s)
      obtain d1 w1 where s: "s = (d1, w1)" by (cases s)
      note ci = Returned[unfolded s]
      from cycleInternal_Returned[OF ci]
      have st: "cycle_step cl (length (fst (loop w))) d d1" by simp
      from "1.prems" have "cycles_loop ev loop (i + 1) n cl d1 w1 = Returned u (d', w')"
        unfolding cycles_loop_Returned[OF True ci] .
      then have "cycles_run (max 0 (n - (i + 1))) d1 d'"
        by (rule "1.IH"[OF True Returned s[symmetric]])
      then have "cycles_run (1 + max 0 (n - (i + 1))) d d'"
        using st by (intro cycles_run_step) simp_all
      moreover have "1 + max 0 (n - (i + 1)) = max 0 (n - i)"
        using True by simp
      ultimately show ?thesis by simp
    next
      case (Exited x)
      with "1.prems" show ?thesis
        unfolding cycles_loop_Exited[OF True Exited] by simp
    next
      case (OutOfFuel x)
      from cycleInternal_not_OutOfFuel[OF OutOfFuel] show ?thesis ..
    qed
  qed
qed

lemma cycles_loop_Exited_flags:
  "cycles_loop ev loop i n cl d w = Exited x \<Longrightarrow>
     frame d (fst x) \<and> abort_on_first_error d \<and> error_if_report_without_queued_assertions d"
proof (induction ev loop i n cl d w rule: cycles_loop.induct)
  case (1 ev loop i n cl d w)
  show ?case
  proof (cases "i < n")
    case False
    from "1.prems" show ?thesis
      unfolding cycles_loop_done[OF False] by simp
  next
    case True
    show ?thesis
    proof (cases "cycleInternal ev loop cl True d w")
      case (Returned u1 s)
      obtain d1 w1 where s: "s = (d1, w1)" by (cases s)
      note ci = Returned[unfolded s]
      from cycleInternal_Returned[OF ci]
      have st: "cycle_step cl (length (fst (loop w))) d d1" by simp
      then have fr: "frame d d1" by (rule cycle_step_frame)
      from "1.prems" have "cycles_loop ev loop (i + 1) n cl d1 w1 = Exited x"
        unfolding cycles_loop_Returned[OF True ci] .
      then have "frame d1 (fst x) \<and> abort_on_first_error d1 \<and>
          error_if_report_without_queued_assertions d1"
        by (rule "1.IH"[OF True Returned s[symmetric]])
      then show ?thesis
        using frame_trans[OF fr] frame_flags[OF fr] by simp
    next
      case (Exited y)
      with "1.prems" have "y = x"
        unfolding cycles_loop_Exited[OF True Exited] by simp
      with cycleInternal_Exited[OF Exited] show ?thesis by simp
    next
      case (OutOfFuel x)
      from cycleInternal_not_OutOfFuel[OF OutOfFuel] show ?thesis ..
    qed
  qed
qed

lemma cycles_loop_not_OutOfFuel:
  "cycles_loop ev loop i n cl d w = OutOfFuel x \<Longrightarrow> False"
proof (induction ev loop i n cl d w rule: cycles_loop.induct)
  case (1 ev loop i n cl d w)
  show ?case
  proof (cases "i < n")
    case False
    from "1.prems" show ?thesis
      unfolding cycles_loop_done[OF False] by simp
  next
    case True
    show ?thesis
    proof (cases "cycleInternal ev loop cl True d w")
      case (Returned u1 s)
      obtain d1 w1 where s: "s = (d1, w1)" by (cases s)
      note ci = Returned[unfolded s]
      from "1.prems" have "cycles_loop ev loop (i + 1) n cl d1 w1 = OutOfFuel x"
        unfolding cycles_loop_Returned[OF True ci] .
      then show ?thesis
        by (rule "1.IH"[OF True Returned s[symmetric]])
    next
      case (Exited y)
      with "1.prems" show ?thesis
        unfolding cycles_loop_Exited[OF True Exited] by simp
    next
      case (OutOfFuel x)
      from cycleInternal_not_OutOfFuel[OF OutOfFuel] show ?thesis ..
    qed
  qed
qed

lemma setDriver_fields [simp]:
  "debug (setDriver a d) = debug d"
  "cycle_duration (setDriver a d) = cycle_duration d"
  "abort_on_first_error (setDriver a d) = abort_on_first_error d"
  "error_if_report_without_queued_assertions (setDriver a d) = error_if_report_without_queued_assertions d"
  "scan_cycles_default_count (setDriver a d) = scan_cycles_default_count d"
  "queued_keyboard_report_assertions (setDriver a d) = queued_keyboard_report_assertions d"
  "permanent_keyboard_report_assertions (setDriver a d) = permanent_keyboard_report_assertions d"
  "queued_cycle_assertions (setDriver a d) = queued_cycle_assertions d"
  "permanent_cycle_assertions (setDriver a d) = permanent_cycle_assertions d"
  "current_keyboard_report (setDriver a d) = current_keyboard_report d"
  "n_overall_keyboard_reports (setDriver a d) = n_overall_keyboard_reports d"
  "n_keyboard_reports_in_cycle (setDriver a d) = n_keyboard_reports_in_cycle d"
  "cycle_id (setDriver a d) = cycle_id d"
  "time (setDriver a d) = time d"
  "assertions_passed (setDriver a d) = assertions_passed d"
  by (simp_all add: setDriver_def)

lemma fold_setDriver_fields [simp]:
  "debug (fold setDriver l d) = debug d"
  "cycle_duration (fold setDriver l d) = cycle_duration d"
  "abort_on_first_error (fold setDriver l d) = abort_on_first_error d"
  "error_if_report_without_queued_assertions (fold setDriver l d) = error_if_report_without_queued_assertions d"
  "scan_cycles_default_count (fold setDriver l d) = scan_cycles_default_count d"
  "queued_keyboard_report_assertions (fold setDriver l d) = queued_keyboard_report_assertions d"
  "permanent_keyboard_report_assertions (fold setDriver l d) = permanent_keyboard_report_assertions d"
  "queued_cycle_assertions (fold setDriver l d) = queued_cycle_assertions d"
  "permanent_cycle_assertions (fold setDriver l d) = permanent_cycle_assertions d"
  "current_keyboard_report (fold setDriver l d) = current_keyboard_report d"
  "n_overall_keyboard_reports (fold setDriver l d) = n_overall_keyboard_reports d"
  "n_keyboard_reports_in_cycle (fold setDriver l d) = n_keyboard_reports_in_cycle d"
  "cycle_id (fold setDriver l d) = cycle_id d"
  "time (fold setDriver l d) = time d"
  "assertions_passed (fold setDriver l d) = assertions_passed d"
  by (induction l arbitrary: d; simp)+

lemma setDriver_counts [simp]:
  "evals_of b (trace (setDriver a d)) = evals_of b (trace d)"
  "errors_of (trace (setDriver a d)) = errors_of (trace d)"
  "scans_of (trace (setDriver a d)) = scans_of (trace d)"
  "binds_of (trace (setDriver a d)) = binds_of (trace d) @ [a]"
  "fails_of (trace (setDriver a d)) = fails_of (trace d)"
  by (simp_all add: setDriver_def)

lemma fold_setDriver_counts [simp]:
  "evals_of b (trace (fold setDriver l d)) = evals_of b (trace d)"
  "errors_of (trace (fold setDriver l d)) = errors_of (trace d)"
  "scans_of (trace (fold setDriver l d)) = scans_of (trace d)"
  "binds_of (trace (fold setDriver l d)) = binds_of (trace d) @ l"
  "fails_of (trace (fold setDriver l d)) = fails_of (trace d)"
  by (induction l arbitrary: d; simp)+

lemma frame_fold_setDriver: "frame d0 d \<Longrightarrow> frame d0 (fold setDriver l d)"
  by (induction l arbitrary: d) (simp_all add: frame_step)

lemma cycles_loop_invariant:
  assumes "cycles_loop ev loop i n cl d w = Returned u (d', w')"
    and "Q 0 d w"
    and "\<And>k d0 w0 d1. Q k d0 w0 \<Longrightarrow> cycle_step cl (length (fst (loop w0))) d0 d1
           \<Longrightarrow> Q (Suc k) d1 (snd (loop w0))"
  shows "Q (nat (n - i)) d' w'"
  using assms
proof (induction ev loop i n cl d w arbitrary: Q rule: cycles_loop.induct)
  case (1 ev loop i n cl d w)
  show ?case
  proof (cases "i < n")
    case False
    from "1.prems"(1) have "d' = d" "w' = w"
      unfolding cycles_loop_done[OF False] by simp_all
    moreover from False have "nat (n - i) = 0" by simp
    ultimately show ?thesis
      using "1.prems"(2) by simp
  next
    case True
    show ?thesis
    proof (cases "cycleInternal ev loop cl True d w")
      case (Returned u1 s)
      obtain d1 w1 where s: "s = (d1, w1)" by (cases s)
      note ci = Returned[unfolded s]
      from cycleInternal_Returned[OF ci]
      have st: "cycle_step cl (length (fst (loop w))) d d1" and w1: "w1 = snd (loop w)"
        by simp_all
      have r: "cycles_loop ev loop (i + 1) n cl d1 w1 = Returned u (d', w')"
        using "1.prems"(1) unfolding cycles_loop_Returned[OF True ci] .
      have q1: "Q (Suc 0) d1 w1"
        unfolding w1 using "1.prems"(2) st by (rule "1.prems"(3))
      have "Q (Suc (nat (n - (i + 1)))) d' w'"
      proof (rule "1.IH"[OF True Returned s[symmetric], where Q = "\<lambda>k. Q (Suc k)", OF r q1])
        fix k d0 w0 d2
        assume "Q (Suc k) d0 w0" "cycle_step cl (length (fst (loop w0))) d0 d2"
        then show "Q (Suc (Suc k)) d2 (snd (loop w0))"
          by (rule "1.prems"(3))
      qed
      moreover have "Suc (nat (n - (i + 1))) = nat (n - i)"
        using True by simp
      ultimately show ?thesis by simp
    next
      case (Exited x)
      with "1.prems"(1) show ?thesis
        unfolding cycles_loop_Exited[OF True Exited] by simp
    next
      case (OutOfFuel x)
      from cycleInternal_not_OutOfFuel[OF OutOfFuel] show ?thesis ..
    qed
  qed
qed

lemma count_list_take_notin: "a \<notin> set q \<Longrightarrow> count_list (take k q) a = 0"
  by (meson count_list_0_iff in_set_takeD)

lemma cycle_step_evals:
  assumes "cycle_step l k d d'" "unqueued a d" "a \<notin> set l"
  shows "evals_of a (trace d') =
           evals_of a (trace d) + k * count_list (permanent_keyboard_report_assertions d) a"
    and "unqueued a d'"
    and "permanent_keyboard_report_assertions d' = permanent_keyboard_report_assertions d"
proof -
  from assms(2) have n: "a \<notin> set (queued_keyboard_report_assertions d)"
    "a \<notin> set (queued_cycle_assertions d)" "a \<notin> set (permanent_cycle_assertions d)"
    by (simp_all add: unqueued_def)
  have fr: "frame d d'" using assms(1) by (simp add: cycle_step_def)
  from assms(1) have
    "evals_of a (trace d') = evals_of a (trace d) +
        count_list (take k (queued_keyboard_report_assertions d)) a +
        k * count_list (permanent_keyboard_report_assertions d) a +
        count_list l a + count_list (queued_cycle_assertions d) a +
        count_list (permanent_cycle_assertions d) a"
    by (simp add: cycle_step_def)
  then show "evals_of a (trace d') =
           evals_of a (trace d) + k * count_list (permanent_keyboard_report_assertions d) a"
    using n assms(3) by (simp add: count_list_take_notin count_list_0_iff)
  from assms(1) have "queued_keyboard_report_assertions d' =
      drop k (queued_keyboard_report_assertions d)" "queued_cycle_assertions d' = []"
    by (simp_all add: cycle_step_def)
  then show "unqueued a d'"
    using n frame_flags(7)[OF fr] by (auto simp: unqueued_def dest: in_set_dropD)
  show "permanent_keyboard_report_assertions d' = permanent_keyboard_report_assertions d"
    by (rule frame_flags(6)[OF fr])
qed

lemma cycle_step_no_assertions:
  assumes "cycle_step [] k d d'" "no_assertions d"
  shows "no_assertions d'" "evals_of b (trace d') = evals_of b (trace d)"
proof -
  have fr: "frame d d'" using assms(1) by (simp add: cycle_step_def)
  from assms show "no_assertions d'"
    using frame_flags(6,7)[OF fr] by (simp add: cycle_step_def no_assertions_def)
  from assms show "evals_of b (trace d') = evals_of b (trace d)"
    by (simp add: cycle_step_def no_assertions_def)
qed

lemma no_evals_no_fails: "(\<And>b. evals_of b new = 0) \<Longrightarrow> fails_of new = 0"
proof (induction new)
  case Nil
  show ?case by simp
next
  case (Cons e new)
  have e: "\<not> is_failed_eval e"
  proof (cases e)
    case (Eval a r)
    with Cons.prems[of a] show ?thesis by simp
  qed simp_all
  have "\<And>b. evals_of b new = 0"
    using Cons.prems by (simp split: if_splits)
  then have "fails_of new = 0" by (rule Cons.IH)
  with e show ?case by simp
qed

lemma frame_same_evals_passed:
  assumes "frame d d'" "\<And>b. evals_of b (trace d') = evals_of b (trace d)"
  shows "assertions_passed d' = assertions_passed d"
proof -
  from assms(1) obtain new where new: "trace d' = trace d @ new"
    by (auto simp: frame_def prefix_def)
  with assms(2) have "\<And>b. evals_of b new = 0" by simp
  then have "fails_of new = 0" by (rule no_evals_no_fails)
  with new assms(1) show ?thesis by (simp add: frame_def)
qed

lemma cycles_alt:
  "cycles ev loop n0 l cl d w =
     (case cycles_loop ev loop 0 (if n0 = 0 then scan_cycles_default_count d else n0) cl
             (fold setDriver l
                (Driver_log [Str ''Running '',
                             Num (if n0 = 0 then scan_cycles_default_count d else n0),
                             Str '' scan cycles''] d)) w of
        Returned _ (d3, w') \<Rightarrow>
          Returned () (Driver_log []
            (eval_block ev [Str ''Processing '', Num (int (length l)),
                            Str '' cycle assertions on stop''] l d3), w')
      | Exited x \<Rightarrow> Exited x
      | OutOfFuel x \<Rightarrow> OutOfFuel x)"
  unfolding cycles_def eval_block_def Let_def
  by (cases "l = []") simp_all

lemma checkCycleDurationSet_cases:
  "checkCycleDurationSet d =
     (if cycle_duration d = 0
      then (if abort_on_first_error d
            then Exited (d\<lparr>trace := trace d @ [Error_out [Str msg_cycle_duration]]\<rparr>)
            else Returned () (d\<lparr>trace := trace d @ [Error_out [Str msg_cycle_duration]]\<rparr>))
      else Returned () d)"
  by (simp add: checkCycleDurationSet_def Driver_error_def)

lemma skipTime_alt:
  "skipTime ev loop fuel delta_t l d w =
     (case checkCycleDurationSet d of
        Returned _ d1 \<Rightarrow>
          (case skipTime_loop ev loop fuel delta_t (time d1) 0
                  (fold setDriver l
                     (Driver_log [Str ''Skipping dt >= '', Dbl delta_t, Str '' ms''] d1)) w of
             Returned elapsed_time (d4, w') \<Rightarrow>
               Returned ()
                 (Driver_log []
                    (eval_block ev [Str ''Processing '', Num (int (length l)),
                                    Str '' cycle assertions on stop''] l
                       (Driver_log [Dbl elapsed_time, Str '' ms ('', Num (cycle_id d4),
                                    Str '' cycles) skipped''] d4)), w')
           | Exited x \<Rightarrow> Exited x
           | OutOfFuel x \<Rightarrow> OutOfFuel x)
      | Exited d1 \<Rightarrow> Exited (d1, w)
      | OutOfFuel d1 \<Rightarrow> OutOfFuel (d1, w))"
  unfolding skipTime_def eval_block_def Let_def
  by (cases "l = []") (simp_all cong: outcome.case_cong prod.case_cong)

lemma skipTime_loop_done:
  "\<not> elapsed < delta_t \<Longrightarrow>
     skipTime_loop ev loop fuel delta_t start elapsed d w = Returned elapsed (d, w)"
  by (cases fuel) simp_all

lemma skipTime_loop_frame:
  "frame d (fst (state_of (skipTime_loop ev loop fuel delta_t start elapsed d w)))"
proof (induction fuel arbitrary: elapsed d w)
  case 0
  show ?case by simp
next
  case (Suc fuel)
  show ?case
  proof (cases "elapsed < delta_t")
    case False
    then show ?thesis by simp
  next
    case True
    show ?thesis
    proof (cases "cycleInternal ev loop [] True d w")
      case (Returned u s)
      obtain d1 w1 where s: "s = (d1, w1)" by (cases s)
      from cycleInternal_Returned[OF Returned[unfolded s]]
      have fr: "frame d d1" by (simp add: cycle_step_def)
      have "frame d1 (fst (state_of (skipTime_loop ev loop fuel delta_t start
               (real_of_int (time d1 - start)) d1 w1)))"
        by (rule Suc.IH)
      with fr have "frame d (fst (state_of (skipTime_loop ev loop fuel delta_t start
               (real_of_int (time d1 - start)) d1 w1)))"
        by (rule frame_trans)
      then show ?thesis
        using True Returned s by simp
    next
      case (Exited x)
      from cycleInternal_Exited[OF Exited] True Exited show ?thesis by simp
    next
      case (OutOfFuel x)
      from cycleInternal_not_OutOfFuel[OF OutOfFuel] show ?thesis ..
    qed
  qed
qed

lemma skipTime_loop_Exited_flags:
  "skipTime_loop ev loop fuel delta_t start elapsed d w = Exited x \<Longrightarrow>
     abort_on_first_error d \<and> error_if_report_without_queued_assertions d"
proof (induction fuel arbitrary: elapsed d w)
  case 0
  then show ?case by (simp split: if_splits)
next
  case (Suc fuel)
  show ?case
  proof (cases "elapsed < delta_t")
    case False
    with Suc.prems show ?thesis by simp
  next
    case True
    show ?thesis
    proof (cases "cycleInternal ev loop [] True d w")
      case (Returned u s)
      obtain d1 w1 where s: "s = (d1, w1)" by (cases s)
      from cycleInternal_Returned[OF Returned[unfolded s]]
      have fr: "frame d d1" by (simp add: cycle_step_def)
      from Suc.prems True Returned s
      have "skipTime_loop ev loop fuel delta_t start (real_of_int (time d1 - start)) d1 w1 =
              Exited x" by simp
      then have "abort_on_first_error d1 \<and> error_if_report_without_queued_assertions d1"
        by (rule Suc.IH)
      then show ?thesis
        using frame_flags[OF fr] by simp
    next
      case (Exited y)
      from cycleInternal_Exited[OF Exited] show ?thesis by simp
    next
      case (OutOfFuel x)
      from cycleInternal_not_OutOfFuel[OF OutOfFuel] show ?thesis ..
    qed
  qed
qed

lemma ceiling_step:
  fixes delta_t elapsed :: real and dur :: int
  assumes "0 < dur" "elapsed < delta_t"
  shows "\<lceil>(delta_t - (elapsed + real_of_int dur)) / real_of_int dur\<rceil> =
           \<lceil>(delta_t - elapsed) / real_of_int dur\<rceil> - 1"
    and "1 \<le> \<lceil>(delta_t - elapsed) / real_of_int dur\<rceil>"
proof -
  have "(delta_t - (elapsed + real_of_int dur)) / real_of_int dur =
          (delta_t - elapsed) / real_of_int dur - 1"
    using assms(1) by (simp add: field_simps)
  then show "\<lceil>(delta_t - (elapsed + real_of_int dur)) / real_of_int dur\<rceil> =
           \<lceil>(delta_t - elapsed) / real_of_int dur\<rceil> - 1"
    by simp
  have "0 < (delta_t - elapsed) / real_of_int dur"
    using assms by simp
  then show "1 \<le> \<lceil>(delta_t - elapsed) / real_of_int dur\<rceil>"
    by linarith
qed

lemma ceiling_done:
  fixes delta_t elapsed :: real and dur :: int
  assumes "0 < dur"
  shows "\<lceil>(delta_t - elapsed) / real_of_int dur\<rceil> \<le> 0 \<longleftrightarrow> \<not> elapsed < delta_t"
proof -
  have "\<lceil>(delta_t - elapsed) / real_of_int dur\<rceil> \<le> 0 \<longleftrightarrow> (delta_t - elapsed) / real_of_int dur \<le> 0"
    by (simp add: ceiling_le_iff)
  also have "\<dots> \<longleftrightarrow> delta_t - elapsed \<le> 0"
    using assms by (simp add: divide_le_0_iff)
  finally show ?thesis by auto
qed

lemma skipTime_loop_enough_fuel:
  assumes "0 < cycle_duration d"
    and "elapsed = real_of_int (time d - start)"
    and "nat \<lceil>(delta_t - elapsed) / real_of_int (cycle_duration d)\<rceil> \<le> fuel"
  shows "(\<exists>d' w'. skipTime_loop ev loop fuel delta_t start elapsed d w =
                     Returned (real_of_int (time d' - start)) (d', w') \<and>
            cycles_run (max 0 \<lceil>(delta_t - elapsed) / real_of_int (cycle_duration d)\<rceil>) d d' \<and>
            delta_t \<le> real_of_int (time d' - start)) \<or>
         (\<exists>x. skipTime_loop ev loop fuel delta_t start elapsed d w = Exited x)"
  using assms
proof (induction fuel arbitrary: elapsed d w)
  case 0
  then have "\<lceil>(delta_t - elapsed) / real_of_int (cycle_duration d)\<rceil> \<le> 0" by simp
  moreover from this have ne: "\<not> elapsed < delta_t"
    using ceiling_done[OF "0.prems"(1)] by simp
  ultimately have "skipTime_loop ev loop 0 delta_t start elapsed d w =
       Returned (real_of_int (time d - start)) (d, w)"
    "cycles_run (max 0 \<lceil>(delta_t - elapsed) / real_of_int (cycle_duration d)\<rceil>) d d"
    "delta_t \<le> real_of_int (time d - start)"
    using "0.prems"(2) cycles_run_0[of d] by simp_all
  then show ?case by blast
next
  case (Suc fuel)
  let ?dur = "cycle_duration d"
  let ?c = "\<lceil>(delta_t - elapsed) / real_of_int ?dur\<rceil>"
  show ?case
  proof (cases "elapsed < delta_t")
    case False
    then have "?c \<le> 0"
      using ceiling_done[OF Suc.prems(1)] by simp
    with False have "skipTime_loop ev loop (Suc fuel) delta_t start elapsed d w =
         Returned (real_of_int (time d - start)) (d, w)"
      "cycles_run (max 0 ?c) d d"
      "delta_t \<le> real_of_int (time d - start)"
      using Suc.prems(2) cycles_run_0[of d] by simp_all
    then show ?thesis by blast
  next
    case True
    note cs = ceiling_step[OF Suc.prems(1) True]
    show ?thesis
    proof (cases "cycleInternal ev loop [] True d w")
      case (Returned u s)
      obtain d1 w1 where s: "s = (d1, w1)" by (cases s)
      from cycleInternal_Returned[OF Returned[unfolded s]]
      have st: "cycle_step [] (length (fst (loop w))) d d1" by simp
      then have fr: "frame d d1" and t1: "time d1 = time d + ?dur"
        by (simp_all add: cycle_step_def)
      have cd: "cycle_duration d1 = ?dur" by (rule frame_flags(3)[OF fr])
      let ?e1 = "real_of_int (time d1 - start)"
      have e1: "?e1 = elapsed + real_of_int ?dur"
        using t1 Suc.prems(2) by simp
      have c1: "\<lceil>(delta_t - ?e1) / real_of_int (cycle_duration d1)\<rceil> = ?c - 1"
        unfolding cd e1 by (rule cs(1))
      have eq: "skipTime_loop ev loop (Suc fuel) delta_t start elapsed d w =
                skipTime_loop ev loop fuel delta_t start ?e1 d1 w1"
        using True Returned s by simp
      have "0 < cycle_duration d1" using Suc.prems(1) cd by simp
      moreover have "?e1 = real_of_int (time d1 - start)" ..
      moreover have "nat \<lceil>(delta_t - ?e1) / real_of_int (cycle_duration d1)\<rceil> \<le> fuel"
        unfolding c1 using Suc.prems(3) cs(2) by linarith
      ultimately have "(\<exists>d' w'. skipTime_loop ev loop fuel delta_t start ?e1 d1 w1 =
                     Returned (real_of_int (time d' - start)) (d', w') \<and>
            cycles_run (max 0 \<lceil>(delta_t - ?e1) / real_of_int (cycle_duration d1)\<rceil>) d1 d' \<and>
            delta_t \<le> real_of_int (time d' - start)) \<or>
         (\<exists>x. skipTime_loop ev loop fuel delta_t start ?e1 d1 w1 = Exited x)"
        by (rule Suc.IH)
      then show ?thesis
      proof
        assume "\<exists>d' w'. skipTime_loop ev loop fuel delta_t start ?e1 d1 w1 =
                     Returned (real_of_int (time d' - start)) (d', w') \<and>
            cycles_run (max 0 \<lceil>(delta_t - ?e1) / real_of_int (cycle_duration d1)\<rceil>) d1 d' \<and>
            delta_t \<le> real_of_int (time d' - start)"
        then obtain d' w' where r: "skipTime_loop ev loop fuel delta_t start ?e1 d1 w1 =
                     Returned (real_of_int (time d' - start)) (d', w')"
          and run: "cycles_run (max 0 (?c - 1)) d1 d'"
          and le: "delta_t \<le> real_of_int (time d' - start)"
          unfolding c1 by blast
        have "cycles_run (1 + max 0 (?c - 1)) d d'"
          using st run by (rule cycles_run_step) simp
        moreover have "1 + max 0 (?c - 1) = max 0 ?c"
          using cs(2) by simp
        ultimately have "cycles_run (max 0 ?c) d d'" by simp
        with r le eq show ?thesis by auto
      next
        assume "\<exists>x. skipTime_loop ev loop fuel delta_t start ?e1 d1 w1 = Exited x"
        with eq show ?thesis by auto
      qed
    next
      case (Exited x)
      with True have "skipTime_loop ev loop (Suc fuel) delta_t start elapsed d w = Exited x"
        by simp
      then show ?thesis by blast
    next
      case (OutOfFuel x)
      from cycleInternal_not_OutOfFuel[OF OutOfFuel] show ?thesis ..
    qed
  qed
qed

lemma skipTime_loop_zero_duration:
  assumes "cycle_duration d = 0" and "\<not> abort_on_first_error d"
    and "elapsed = real_of_int (time d - start)" and "elapsed < delta_t"
  shows "\<exists>x. skipTime_loop ev loop fuel delta_t start elapsed d w = OutOfFuel x"
  using assms
proof (induction fuel arbitrary: d w)
  case 0
  then show ?case by simp
next
  case (Suc fuel)
  show ?case
  proof (cases "cycleInternal ev loop [] True d w")
    case (Returned u s)
    obtain d1 w1 where s: "s = (d1, w1)" by (cases s)
    from cycleInternal_Returned[OF Returned[unfolded s]]
    have st: "cycle_step [] (length (fst (loop w))) d d1" by simp
    then have fr: "frame d d1" and t1: "time d1 = time d"
      using Suc.prems(1) by (simp_all add: cycle_step_def)
    have "\<exists>x. skipTime_loop ev loop fuel delta_t start elapsed d1 w1 = OutOfFuel x"
      using frame_flags[OF fr] Suc.prems t1 by (intro Suc.IH) simp_all
    then show ?thesis
      using Suc.prems(3,4) Returned s t1 by simp
  next
    case (Exited x)
    from cycleInternal_Exited[OF Exited] Suc.prems(2) show ?thesis by simp
  next
    case (OutOfFuel x)
    from cycleInternal_not_OutOfFuel[OF OutOfFuel] show ?thesis ..
  qed
qed

lemma skipTime_zero_duration_never_returns:
  assumes "cycle_duration d = 0" and "\<not> abort_on_first_error d" and "0 < delta_t"
  shows "\<exists>x. skipTime ev loop fuel delta_t l d w = OutOfFuel x"
proof -
  define d1 where "d1 = d\<lparr>trace := trace d @ [Error_out [Str msg_cycle_duration]]\<rparr>"
  define d3 where "d3 = fold setDriver l
      (Driver_log [Str ''Skipping dt >= '', Dbl delta_t, Str '' ms''] d1)"
  have c: "checkCycleDurationSet d = Returned () d1"
    using assms unfolding checkCycleDurationSet_cases d1_def by simp
  have "\<exists>x. skipTime_loop ev loop fuel delta_t (time d1) 0 d3 w = OutOfFuel x"
    using assms by (intro skipTime_loop_zero_duration) (simp_all add: d3_def d1_def)
  then show ?thesis
    unfolding skipTime_alt c by (auto simp: d3_def)
qed

lemma cycleInternal_never_binds:
  "cycleInternal ev loop l olr d w = Returned u (d', w') \<Longrightarrow>
     binds_of (trace d') = binds_of (trace d)"
  using cycleInternal_Returned[of ev loop l olr d w u d' w'] by (simp add: cycle_step_def)

lemma frame_evals_mono: "frame d d' \<Longrightarrow> evals_of a (trace d) \<le> evals_of a (trace d')"
  by (auto simp: frame_def prefix_def)

lemma skipTime_loop_zero_duration_run:
  assumes "cycle_duration d = 0" and "\<not> abort_on_first_error d"
    and "elapsed = real_of_int (time d - start)" and "elapsed < delta_t"
  shows "\<exists>d' w'. skipTime_loop ev loop fuel delta_t start elapsed d w = OutOfFuel (d', w') \<and>
           cycles_run (int fuel) d d'"
  using assms
proof (induction fuel arbitrary: d w)
  case 0
  then show ?case by (simp add: cycles_run_0)
next
  case (Suc fuel)
  show ?case
  proof (cases "cycleInternal ev loop [] True d w")
    case (Returned u s)
    obtain d1 w1 where s: "s = (d1, w1)" by (cases s)
    from cycleInternal_Returned[OF Returned[unfolded s]]
    have st: "cycle_step [] (length (fst (loop w))) d d1" by simp
    then have fr: "frame d d1" and t1: "time d1 = time d"
      using Suc.prems(1) by (simp_all add: cycle_step_def)
    have "\<exists>d' w'. skipTime_loop ev loop fuel delta_t start elapsed d1 w1 = OutOfFuel (d', w') \<and>
           cycles_run (int fuel) d1 d'"
      using frame_flags[OF fr] Suc.prems t1 by (intro Suc.IH) simp_all
    then obtain d' w' where
      r: "skipTime_loop ev loop fuel delta_t start elapsed d1 w1 = OutOfFuel (d', w')"
      and run: "cycles_run (int fuel) d1 d'" by blast
    have "cycles_run (1 + int fuel) d d'"
      using st run by (rule cycles_run_step) simp
    then have "cycles_run (int (Suc fuel)) d d'" by simp
    moreover have "skipTime_loop ev loop (Suc fuel) delta_t start elapsed d w = OutOfFuel (d', w')"
      using Suc.prems(3,4) Returned s t1 r by simp
    ultimately show ?thesis by blast
  next
    case (Exited x)
    from cycleInternal_Exited[OF Exited] Suc.prems(2) show ?thesis by simp
  next
    case (OutOfFuel x)
    from cycleInternal_not_OutOfFuel[OF OutOfFuel] show ?thesis ..
  qed
qed

lemma evals_onI:
  "trace d' = trace d @ new \<Longrightarrow> map current_keyboard_report drs = rs \<Longrightarrow>
   filter (is_eval_of a) new = map (\<lambda>dr. Eval a (ev a dr)) drs \<Longrightarrow> evals_on ev a d d' rs"
  unfolding evals_on_def by blast

lemma evals_on_refl: "evals_on ev a d d []"
  unfolding evals_on_def by (intro exI[of _ "[]"]) simp

lemma evals_on_trans:
  assumes "evals_on ev a d d1 rs1" "evals_on ev a d1 d2 rs2"
  shows "evals_on ev a d d2 (rs1 @ rs2)"
proof -
  from assms(1) obtain n1 ds1 where 1: "trace d1 = trace d @ n1"
    "map current_keyboard_report ds1 = rs1"
    "filter (is_eval_of a) n1 = map (\<lambda>dr. Eval a (ev a dr)) ds1"
    unfolding evals_on_def by blast
  from assms(2) obtain n2 ds2 where 2: "trace d2 = trace d1 @ n2"
    "map current_keyboard_report ds2 = rs2"
    "filter (is_eval_of a) n2 = map (\<lambda>dr. Eval a (ev a dr)) ds2"
    unfolding evals_on_def by blast
  have "trace d2 = trace d @ (n1 @ n2)" "map current_keyboard_report (ds1 @ ds2) = rs1 @ rs2"
    "filter (is_eval_of a) (n1 @ n2) = map (\<lambda>dr. Eval a (ev a dr)) (ds1 @ ds2)"
    using 1 2 by simp_all
  then show ?thesis
    unfolding evals_on_def by blast
qed

lemma evals_on_quiet:
  assumes "trace d' = trace d @ new" "filter (is_eval_of a) new = []"
  shows "evals_on ev a d d' []"
  unfolding evals_on_def using assms by (intro exI[of _ new] exI[of _ "[]"]) simp

lemma evals_on_then_quiet:
  assumes "evals_on ev a d0 d rs" "trace d' = trace d @ new" "filter (is_eval_of a) new = []"
  shows "evals_on ev a d0 d' rs"
  using evals_on_trans[OF assms(1) evals_on_quiet[OF assms(2,3)]] by simp

lemma evals_on_PKRA: 
  "evals_on ev a d (processKeyboardReportAssertion ev b d)
     (if a = b then [current_keyboard_report d] else [])"
proof (cases "a = b")
  case True
  have "trace (processKeyboardReportAssertion ev b d) = trace d @
      (Eval b (ev b d) # (if \<not> ev b d \<or> debug d then [Report_out b] else []))"
    by (simp add: processKeyboardReportAssertion_def Let_def)
  moreover have "map current_keyboard_report [d] = [current_keyboard_report d]" by simp
  moreover have "filter (is_eval_of a)
      (Eval b (ev b d) # (if \<not> ev b d \<or> debug d then [Report_out b] else [])) =
      map (\<lambda>dr. Eval a (ev a dr)) [d]"
    using True by simp
  ultimately have "evals_on ev a d (processKeyboardReportAssertion ev b d)
      [current_keyboard_report d]"
    by (rule evals_onI)
  with True show ?thesis by simp
next
  case False
  have "trace (processKeyboardReportAssertion ev b d) = trace d @
      (Eval b (ev b d) # (if \<not> ev b d \<or> debug d then [Report_out b] else []))"
    by (simp add: processKeyboardReportAssertion_def Let_def)
  moreover have "filter (is_eval_of a)
      (Eval b (ev b d) # (if \<not> ev b d \<or> debug d then [Report_out b] else [])) = []"
    using False by simp
  ultimately have "evals_on ev a d (processKeyboardReportAssertion ev b d) []"
    by (rule evals_on_quiet)
  with False show ?thesis by simp
qed

lemma evals_on_fold_PKRA:
  "evals_on ev a d (fold (processKeyboardReportAssertion ev) xs d)
     (replicate (count_list xs a) (current_keyboard_report d))"
proof (induction xs arbitrary: d)
  case Nil
  show ?case by (simp add: evals_on_refl)
next
  case (Cons b xs)
  let ?d1 = "processKeyboardReportAssertion ev b d"
  have "evals_on ev a d (fold (processKeyboardReportAssertion ev) xs ?d1)
     ((if a = b then [current_keyboard_report d] else []) @
      replicate (count_list xs a) (current_keyboard_report ?d1))"
    using evals_on_PKRA Cons.IH by (rule evals_on_trans)
  then show ?case
    by (cases "a = b") auto
qed

lemma evals_on_log: "evals_on ev a d (Driver_log m d) []"
  by (rule evals_on_quiet[of _ _ "[Log_out m]"]) (simp_all add: Driver_log_def)

lemma evals_on_perm_block:
  "evals_on ev a d
     (if xs \<noteq> [] then fold (processKeyboardReportAssertion ev) xs (Driver_log m d) else d)
     (replicate (count_list xs a) (current_keyboard_report d))"
proof (cases "xs = []")
  case True
  then show ?thesis by (simp add: evals_on_refl)
next
  case False
  have "evals_on ev a d (fold (processKeyboardReportAssertion ev) xs (Driver_log m d))
     ([] @ replicate (count_list xs a) (current_keyboard_report (Driver_log m d)))"
    using evals_on_log evals_on_fold_PKRA by (rule evals_on_trans)
  with False show ?thesis by simp
qed

lemma evals_on_error:
  "evals_on ev a d (state_of (Driver_error m d)) []"
  by (rule evals_on_quiet[of _ _ "[Error_out m]"]) (simp_all add: Driver_error_def Let_def)

lemma evals_on_PKR:
  "evals_on ev a d (state_of (processKeyboardReport ev r d))
     (replicate ((case queued_keyboard_report_assertions d of [] \<Rightarrow> 0
                  | b # q \<Rightarrow> if a = b then 1 else 0) +
                 count_list (permanent_keyboard_report_assertions d) a) r)"
proof -
  define d5 where "d5 =
    Driver_log [Num (int (length (queued_keyboard_report_assertions d))),
                Str '' queued report assertions'']
     (Driver_log [Str ''Processing keyboard report '',
                  Num (n_overall_keyboard_reports d + 1), Str '' ('',
                  Num (n_keyboard_reports_in_cycle d + 1), Str ''. in cycle '',
                  Num (cycle_id d), Str '')'']
       (d\<lparr>current_keyboard_report := r,
           n_overall_keyboard_reports := n_overall_keyboard_reports d + 1,
           n_keyboard_reports_in_cycle := n_keyboard_reports_in_cycle d + 1\<rparr>))"
  define d6 where "d6 = (case queued_keyboard_report_assertions d of [] \<Rightarrow> d5
      | b # q \<Rightarrow> processKeyboardReportAssertion ev b
                   (d5\<lparr>queued_keyboard_report_assertions := q\<rparr>))"
  define d7 where "d7 =
     (if permanent_keyboard_report_assertions d \<noteq> []
      then fold (processKeyboardReportAssertion ev) (permanent_keyboard_report_assertions d)
             (Driver_log [Num (int (length (permanent_keyboard_report_assertions d))),
                          Str '' permanent report assertions''] d6)
      else d6)"
  have e5: "evals_on ev a d d5 []"
  proof -
    let ?d3 = "d\<lparr>current_keyboard_report := r,
           n_overall_keyboard_reports := n_overall_keyboard_reports d + 1,
           n_keyboard_reports_in_cycle := n_keyboard_reports_in_cycle d + 1\<rparr>"
    have "evals_on ev a d ?d3 []"
      by (rule evals_on_quiet[of _ _ "[]"]) simp_all
    from evals_on_trans[OF evals_on_trans[OF this evals_on_log] evals_on_log]
    show ?thesis by (simp add: d5_def)
  qed
  have c5: "current_keyboard_report d5 = r"
    by (simp add: d5_def)
  have e6: "evals_on ev a d5 d6
      (replicate (case queued_keyboard_report_assertions d of [] \<Rightarrow> 0
                  | b # q \<Rightarrow> if a = b then 1 else 0) r)"
  proof (cases "queued_keyboard_report_assertions d")
    case Nil
    then show ?thesis by (simp add: d6_def evals_on_refl)
  next
    case (Cons b q)
    have "evals_on ev a d5 (d5\<lparr>queued_keyboard_report_assertions := q\<rparr>) []"
      by (rule evals_on_quiet[of _ _ "[]"]) simp_all
    from evals_on_trans[OF this evals_on_PKRA[of ev a _ b]] c5 Cons
    show ?thesis by (cases "a = b") (simp_all add: d6_def)
  qed
  have c6: "current_keyboard_report d6 = r"
    "permanent_keyboard_report_assertions d6 = permanent_keyboard_report_assertions d"
    by (simp_all add: d6_def d5_def split: list.split)
  have e7: "evals_on ev a d6 d7
      (replicate (count_list (permanent_keyboard_report_assertions d) a) r)"
    using evals_on_perm_block[where ev = ev and a = a and d = d6
            and xs = "permanent_keyboard_report_assertions d"] c6
    by (simp add: d7_def)
  have "state_of (processKeyboardReport ev r d) =
      (if queued_keyboard_report_assertions d = [] \<and>
          error_if_report_without_queued_assertions d
       then state_of (Driver_error [Str msg_report_without_assertions] d7) else d7)"
    by (simp add: processKeyboardReport_def Let_def popFront_def directAccess_def
        d7_def d6_def d5_def c6 Driver_error_def split: list.split)
  moreover have "evals_on ev a d7
     (if queued_keyboard_report_assertions d = [] \<and>
          error_if_report_without_queued_assertions d
       then state_of (Driver_error [Str msg_report_without_assertions] d7) else d7) []"
    by (simp add: evals_on_refl evals_on_error)
  ultimately have e8: "evals_on ev a d7 (state_of (processKeyboardReport ev r d)) []"
    by simp
  from evals_on_trans[OF evals_on_trans[OF evals_on_trans[OF e5 e6] e7] e8]
  show ?thesis
    by (simp add: replicate_add)
qed

lemma evals_on_consumer:
  assumes "a \<notin> set (queued_keyboard_report_assertions d)"
    and "count_list (permanent_keyboard_report_assertions d) a = 1"
  shows "evals_on ev a d (state_of (KeyboardReportConsumer_processKeyboardReport ev r d)) [r]"
proof -
  let ?d0 = "d\<lparr>trace := trace d @ [Stdout ''************* Processing keyboard report'']\<rparr>"
  have q: "(case queued_keyboard_report_assertions ?d0 of [] \<Rightarrow> 0
            | b # q \<Rightarrow> if a = b then 1 else 0) = (0::nat)"
    using assms(1) by (auto split: list.split)
  have "evals_on ev a d ?d0 []"
    by (rule evals_on_quiet[of _ _ "[Stdout ''************* Processing keyboard report'']"])
       simp_all
  from evals_on_trans[OF this evals_on_PKR[of ev a ?d0 r]] show ?thesis
    unfolding q using assms(2)
    by (simp add: KeyboardReportConsumer_processKeyboardReport_def)
qed

lemma evals_on_deliver:
  assumes "deliver ev rs d = Returned u d'"
    and "a \<notin> set (queued_keyboard_report_assertions d)"
    and "count_list (permanent_keyboard_report_assertions d) a = 1"
  shows "evals_on ev a d d' rs"
  using assms
proof (induction rs arbitrary: d)
  case Nil
  then show ?case by (simp add: evals_on_refl)
next
  case (Cons r rs)
  obtain d1 where d1: "KeyboardReportConsumer_processKeyboardReport ev r d =
          (if queued_keyboard_report_assertions d = [] \<and>
              error_if_report_without_queued_assertions d \<and> abort_on_first_error d
           then Exited d1 else Returned () d1)" and st: "report_step r d d1"
    using consumer_outcome[of ev r d] by blast
  have ret: "KeyboardReportConsumer_processKeyboardReport ev r d = Returned () d1"
    using d1 Cons.prems(1) by (auto split: if_splits)
  then have eq: "deliver ev rs d1 = Returned u d'"
    using Cons.prems(1) by simp
  from st have fr: "frame d d1" by (rule report_step_frame)
  from st have "queued_keyboard_report_assertions d1 = tl (queued_keyboard_report_assertions d)"
    by (simp add: report_step_def)
  then have n1: "a \<notin> set (queued_keyboard_report_assertions d1)"
    using Cons.prems(2) by (cases "queued_keyboard_report_assertions d") simp_all
  have c1: "count_list (permanent_keyboard_report_assertions d1) a = 1"
    using Cons.prems(3) frame_flags(6)[OF fr] by simp
  have "evals_on ev a d d1 [r]"
    using evals_on_consumer[OF Cons.prems(2,3), of ev r] ret by simp
  from evals_on_trans[OF this Cons.IH[OF eq n1 c1]] show ?case by simp
qed

lemma evals_on_call_loop:
  assumes "call_loop ev loop d w = Returned u (d', w')"
    and "a \<notin> set (queued_keyboard_report_assertions d)"
    and "count_list (permanent_keyboard_report_assertions d) a = 1"
  shows "evals_on ev a d d' (fst (loop w))"
proof -
  let ?d0 = "d\<lparr>trace := trace d @ [Subject_loop]\<rparr>"
  from assms(1) obtain u' where "deliver ev (fst (loop w)) ?d0 = Returned u' d'"
    by (auto simp: call_loop_def split: prod.splits outcome.splits)
  then have "evals_on ev a ?d0 d' (fst (loop w))"
    using assms(2,3) by (intro evals_on_deliver) simp_all
  moreover have "evals_on ev a d ?d0 []"
    by (rule evals_on_quiet[of _ _ "[Subject_loop]"]) simp_all
  ultimately show ?thesis
    using evals_on_trans by fastforce
qed

lemma evals_on_blocks:
  "evals_on ev a d (log_if c m d) []"
  "a \<notin> set l \<Longrightarrow> evals_on ev a d (eval_block ev m l d) []"
  "a \<notin> set (queued_cycle_assertions d) \<Longrightarrow> evals_on ev a d (clear_block ev m d) []"
proof -
  show "evals_on ev a d (log_if c m d) []"
    by (simp add: log_if_def evals_on_refl evals_on_log)
  have blk: "evals_on ev a d (processCycleAssertions ev xs (Driver_log m d)) []"
    if "a \<notin> set xs" for xs
  proof -
    have "evals_on ev a d (fold (processKeyboardReportAssertion ev) xs (Driver_log m d))
     ([] @ replicate (count_list xs a) (current_keyboard_report (Driver_log m d)))"
      using evals_on_log evals_on_fold_PKRA by (rule evals_on_trans)
    with that show ?thesis
      by (simp add: processCycleAssertions_def count_list_0_iff)
  qed
  show "evals_on ev a d (eval_block ev m l d) []" if "a \<notin> set l"
    using blk[OF that] by (simp add: eval_block_def evals_on_refl)
  show "evals_on ev a d (clear_block ev m d) []" if "a \<notin> set (queued_cycle_assertions d)"
  proof (cases "queued_cycle_assertions d = []")
    case True
    then show ?thesis by (simp add: clear_block_def evals_on_refl)
  next
    case False
    let ?p = "processCycleAssertions ev (queued_cycle_assertions d) (Driver_log m d)"
    have "evals_on ev a ?p (?p\<lparr>queued_cycle_assertions := []\<rparr>) []"
      by (rule evals_on_quiet[of _ _ "[]"]) simp_all
    from evals_on_trans[OF blk[OF that] this] False show ?thesis
      by (simp add: clear_block_def)
  qed
qed

lemma evals_on_cycleInternal:
  assumes ci: "cycleInternal ev loop l olr d w = Returned u (d', w')"
    and un: "unqueued a d" and nl: "a \<notin> set l"
    and c: "count_list (permanent_keyboard_report_assertions d) a = 1"
  shows "evals_on ev a d d' (fst (loop w))"
proof -
  let ?d2 = "d\<lparr>cycle_id := cycle_id d + 1, n_keyboard_reports_in_cycle := 0\<rparr>"
  let ?d4 = "log_if (\<not> olr) [Str ''Scan cycle '', Num (cycle_id d + 1)] ?d2"
  from un have n: "a \<notin> set (queued_keyboard_report_assertions d)"
    "a \<notin> set (queued_cycle_assertions d)" "a \<notin> set (permanent_cycle_assertions d)"
    by (simp_all add: unqueued_def)
  from ci obtain d5 where
    cl: "call_loop ev loop ?d4 w = Returned () (d5, w')" and
    d': "d' = (let d6 = (if n_keyboard_reports_in_cycle d5 = 0
                     then log_if (\<not> olr) [Str ''No keyboard reports processed''] d5
                     else Driver_log [Num (n_keyboard_reports_in_cycle d5),
                                      Str '' keyboard reports processed''] d5);
               d7 = d6\<lparr>time := time d6 + cycle_duration d6\<rparr>;
               d8 = eval_block ev [Str ''Processing '', Num (int (length l)),
                                   Str '' cycle assertions on stop''] l d7;
               d9 = clear_block ev [Str ''Processing '',
                                    Num (int (length (queued_cycle_assertions d8))),
                                    Str '' queued cycle assertions''] d8;
               d10 = eval_block ev [Str ''Processing '',
                                    Num (int (length (permanent_cycle_assertions d9))),
                                    Str '' permanent cycle assertions'']
                       (permanent_cycle_assertions d9) d9
           in d10)"
    unfolding cycleInternal_alt by (auto simp: Let_def split: outcome.splits)
  from call_loop_Returned[OF cl]
  have rs: "reports_step (fst (loop w)) (?d4\<lparr>trace := trace ?d4 @ [Subject_loop]\<rparr>) d5"
    by simp
  then have q5: "queued_cycle_assertions d5 = queued_cycle_assertions d"
    by (simp add: reports_step_def)
  from reports_step_frame[OF rs]
  have p5: "permanent_cycle_assertions d5 = permanent_cycle_assertions d"
    by (simp add: frame_def)
  have e2: "evals_on ev a d ?d2 []"
    by (rule evals_on_quiet[of _ _ "[]"]) simp_all
  have e4: "evals_on ev a d ?d4 []"
    using evals_on_trans[OF e2 evals_on_blocks(1)] by simp
  have e5: "evals_on ev a ?d4 d5 (fst (loop w))"
    using cl n(1) c by (intro evals_on_call_loop) simp_all
  define d6 where "d6 = (if n_keyboard_reports_in_cycle d5 = 0
                     then log_if (\<not> olr) [Str ''No keyboard reports processed''] d5
                     else Driver_log [Num (n_keyboard_reports_in_cycle d5),
                                      Str '' keyboard reports processed''] d5)"
  define d7 where "d7 = d6\<lparr>time := time d6 + cycle_duration d6\<rparr>"
  define d8 where "d8 = eval_block ev [Str ''Processing '', Num (int (length l)),
                                   Str '' cycle assertions on stop''] l d7"
  define d9 where "d9 = clear_block ev [Str ''Processing '',
                                    Num (int (length (queued_cycle_assertions d8))),
                                    Str '' queued cycle assertions''] d8"
  define d10 where "d10 = eval_block ev [Str ''Processing '',
                                    Num (int (length (permanent_cycle_assertions d9))),
                                    Str '' permanent cycle assertions'']
                       (permanent_cycle_assertions d9) d9"
  have d'10: "d' = d10"
    unfolding d' d10_def d9_def d8_def d7_def d6_def Let_def ..
  have e6: "evals_on ev a d5 d6 []"
    unfolding d6_def by (simp add: evals_on_blocks(1) evals_on_log)
  have e7: "evals_on ev a d6 d7 []"
    unfolding d7_def by (rule evals_on_quiet[of _ _ "[]"]) simp_all
  have e8: "evals_on ev a d7 d8 []"
    unfolding d8_def using nl by (rule evals_on_blocks(2))
  have q8: "queued_cycle_assertions d8 = queued_cycle_assertions d"
    "permanent_cycle_assertions d8 = permanent_cycle_assertions d"
    by (simp_all add: d8_def d7_def d6_def q5 p5)
  have e9: "evals_on ev a d8 d9 []"
    unfolding d9_def using n(2) q8 by (intro evals_on_blocks(3)) simp
  have p9: "permanent_cycle_assertions d9 = permanent_cycle_assertions d"
    by (simp add: d9_def q8)
  have e10: "evals_on ev a d9 d10 []"
    unfolding d10_def using n(3) p9 by (intro evals_on_blocks(2)) simp
  from evals_on_trans[OF evals_on_trans[OF evals_on_trans[OF evals_on_trans[OF
         evals_on_trans[OF evals_on_trans[OF e4 e5] e6] e7] e8] e9] e10]
  show ?thesis by (simp add: d'10)
qed

lemma evals_on_cycles_loop:
  assumes "cycles_loop ev loop i n cl d w = Returned u (d', w')"
    and "unqueued a d" and "a \<notin> set cl"
    and "count_list (permanent_keyboard_report_assertions d) a = 1"
  shows "evals_on ev a d d' (scan_reports loop w (nat (n - i)))"
  using assms
proof (induction ev loop i n cl d w rule: cycles_loop.induct)
  case (1 ev loop i n cl d w)
  show ?case
  proof (cases "i < n")
    case False
    from "1.prems"(1) have "d' = d"
      unfolding cycles_loop_done[OF False] by simp
    moreover from False have "nat (n - i) = 0" by simp
    ultimately show ?thesis
      by (simp add: evals_on_refl)
  next
    case True
    show ?thesis
    proof (cases "cycleInternal ev loop cl True d w")
      case (Returned u1 s)
      obtain d1 w1 where s: "s = (d1, w1)" by (cases s)
      note ci = Returned[unfolded s]
      from cycleInternal_Returned[OF ci]
      have st: "cycle_step cl (length (fst (loop w))) d d1" and w1: "w1 = snd (loop w)"
        by simp_all
      have r: "cycles_loop ev loop (i + 1) n cl d1 w1 = Returned u (d', w')"
        using "1.prems"(1) unfolding cycles_loop_Returned[OF True ci] .
      note se = cycle_step_evals[OF st "1.prems"(2,3)]
      have c1: "count_list (permanent_keyboard_report_assertions d1) a = 1"
        using se(3) "1.prems"(4) by simp
      have e1: "evals_on ev a d d1 (fst (loop w))"
        using ci "1.prems"(2,3,4) by (rule evals_on_cycleInternal)
      have "evals_on ev a d1 d' (scan_reports loop w1 (nat (n - (i + 1))))"
        using r se(2) "1.prems"(3) c1 by (rule "1.IH"[OF True Returned s[symmetric]])
      with e1 have "evals_on ev a d d'
          (fst (loop w) @ scan_reports loop w1 (nat (n - (i + 1))))"
        by (rule evals_on_trans)
      moreover have "nat (n - i) = Suc (nat (n - (i + 1)))"
        using True by simp
      ultimately show ?thesis
        by (simp add: w1)
    next
      case (Exited x)
      with "1.prems"(1) show ?thesis
        unfolding cycles_loop_Exited[OF True Exited] by simp
    next
      case (OutOfFuel x)
      from cycleInternal_not_OutOfFuel[OF OutOfFuel] show ?thesis ..
    qed
  qed
qed

lemma length_scan_reports:
  "\<forall>w. length (fst (loop w)) = 1 \<Longrightarrow> length (scan_reports loop w k) = k"
  by (induction k arbitrary: w) simp_all

lemma fails_of_0_D: "fails_of new = 0 \<Longrightarrow> e \<in> set new \<Longrightarrow> \<not> is_failed_eval e"
  by (induction new) (auto split: if_splits)

lemma trace_fold_setDriver: "trace (fold setDriver l d) = trace d @ map SetDriver l"
  by (induction l arbitrary: d) (simp_all add: setDriver_def)

lemma evals_on_fold_setDriver: "evals_on ev a d (fold setDriver l d) []"
proof (rule evals_on_quiet[of _ _ "map SetDriver l"])
  show "trace (fold setDriver l d) = trace d @ map SetDriver l"
    by (rule trace_fold_setDriver)
  show "filter (is_eval_of a) (map SetDriver l) = []"
    by (induction l) simp_all
qed

lemma evals_on_eval_block:
  "evals_on ev a d (eval_block ev m l d)
     (replicate (count_list l a) (current_keyboard_report d))"
  using evals_on_perm_block[where ev = ev and a = a and xs = l and m = m and d = d]
  unfolding eval_block_def processCycleAssertions_def .

lemma evals_onD:
  "evals_on ev a d d' rs \<Longrightarrow>
     \<exists>new drs. trace d' = trace d @ new \<and>
       filter (is_eval_of a) new = map (\<lambda>dr. Eval a (ev a dr)) drs \<and>
       map current_keyboard_report drs = rs"
  unfolding evals_on_def by blast

lemma evals_on_stop_block:
  "evals_on ev a d
     (Driver_log m3 (eval_block ev m2 l (fold setDriver l (Driver_log m1 d))))
     (replicate (count_list l a) (current_keyboard_report d))"
proof -
  let ?d2 = "fold setDriver l (Driver_log m1 d)"
  have "evals_on ev a d ?d2 []"
    using evals_on_trans[OF evals_on_log evals_on_fold_setDriver] by simp
  from evals_on_trans[OF evals_on_trans[OF this evals_on_eval_block] evals_on_log]
  show ?thesis by simp
qed

section \<open>The claims\<close>

text \<open>
  Every use of \<^verbatim>\<open>error()\<close> ends the process when \<^verbatim>\<open>abort_on_first_error_\<close> is set
  (section 4.2 of the specification, "Failure semantics"). The theorems hold for every
  configuration of the driver: where a call can be ended that way, the statement says what
  holds when the call returns and, as a second alternative, under which flags the process
  exits instead. \<open>OutOfFuel\<close> is an outcome of \<open>skipTime\<close> only
  (\<open>cycleInternal_not_OutOfFuel\<close>, \<open>cycles_loop_not_OutOfFuel\<close>).
\<close>

text \<open>
  C1. A report that arrives while assertions are queued: \<open>processKeyboardReport\<close> returns,
  the queue loses exactly its front element (the earliest pushed) and keeps the rest in
  order, so its size goes down by one; the removed assertion is evaluated while the
  driver's current report is the delivered one; and no other queued assertion is
  evaluated: the evaluations of any assertion \<open>b\<close> during the call are one for the front
  element plus one for each occurrence of \<open>b\<close> among the permanent report assertions.
\<close>

theorem processKeyboardReport_consumes_front:
  assumes "queued_keyboard_report_assertions d = a # q"
  shows "\<exists>d' dr new.
     processKeyboardReport ev report_data d = Returned () d' \<and>
     queued_keyboard_report_assertions d' = q \<and>
     length (queued_keyboard_report_assertions d') + 1 =
       length (queued_keyboard_report_assertions d) \<and>
     trace d' = trace d @ new \<and>
     current_keyboard_report dr = report_data \<and>
     Eval a (ev a dr) \<in> set new \<and>
     (\<forall>b. evals_of b new =
        (if b = a then 1 else 0) + count_list (permanent_keyboard_report_assertions d) b)"
proof -
  obtain d' where res: "processKeyboardReport ev report_data d = Returned () d'"
    and st: "report_step report_data d d'"
    using PKR_outcome[of ev report_data d] assms by auto
  define d5 where "d5 =
    Driver_log [Num (int (length (queued_keyboard_report_assertions d))),
                Str '' queued report assertions'']
     (Driver_log [Str ''Processing keyboard report '',
                  Num (n_overall_keyboard_reports d + 1), Str '' ('',
                  Num (n_keyboard_reports_in_cycle d + 1), Str ''. in cycle '',
                  Num (cycle_id d), Str '')'']
       (d\<lparr>current_keyboard_report := report_data,
           n_overall_keyboard_reports := n_overall_keyboard_reports d + 1,
           n_keyboard_reports_in_cycle := n_keyboard_reports_in_cycle d + 1\<rparr>))"
  define dr where "dr = d5\<lparr>queued_keyboard_report_assertions := q\<rparr>"
  define d6 where "d6 = processKeyboardReportAssertion ev a dr"
  have cur: "current_keyboard_report dr = report_data"
    by (simp add: dr_def d5_def)
  have t6: "\<exists>rest. trace d6 = trace d @ rest \<and> Eval a (ev a dr) \<in> set rest"
    by (simp add: d6_def processKeyboardReportAssertion_def Let_def dr_def d5_def Driver_log_def)
  have "frame d6 d'"
  proof -
    have "d' = (if permanent_keyboard_report_assertions d6 \<noteq> []
                then fold (processKeyboardReportAssertion ev)
                       (permanent_keyboard_report_assertions d6)
                       (Driver_log [Num (int (length (permanent_keyboard_report_assertions d6))),
                                    Str '' permanent report assertions''] d6)
                else d6)"
      using res assms
      by (auto simp add: processKeyboardReport_def Let_def popFront_def directAccess_def
          d6_def dr_def d5_def split: if_splits)
    then show ?thesis
      by (auto intro!: frame_step)
  qed
  then obtain rest' where "trace d' = trace d6 @ rest'"
    by (auto simp: frame_def prefix_def)
  with t6 obtain new where new: "trace d' = trace d @ new" "Eval a (ev a dr) \<in> set new"
    by auto
  from st new(1) assms
  have "\<forall>b. evals_of b new =
        (if b = a then 1 else 0) + count_list (permanent_keyboard_report_assertions d) b"
    by (simp add: report_step_def)
  moreover from st assms have "queued_keyboard_report_assertions d' = q"
    by (simp add: report_step_def)
  ultimately show ?thesis
    using res new cur assms by auto
qed

theorem processKeyboardReport_consumes_front_witness:
  "queued_keyboard_report_assertions (idle_Driver\<lparr>queued_keyboard_report_assertions := [3, 4]\<rparr>)
     = 3 # [4] \<and>
   (\<exists>d' dr new.
     processKeyboardReport passing ()
       (idle_Driver\<lparr>queued_keyboard_report_assertions := [3, 4]\<rparr>) = Returned () d' \<and>
     queued_keyboard_report_assertions d' = [4] \<and>
     length (queued_keyboard_report_assertions d') + 1 =
       length (queued_keyboard_report_assertions
                 (idle_Driver\<lparr>queued_keyboard_report_assertions := [3, 4]\<rparr>)) \<and>
     trace d' = trace (idle_Driver\<lparr>queued_keyboard_report_assertions := [3, 4]\<rparr>) @ new \<and>
     current_keyboard_report dr = () \<and>
     Eval 3 (passing 3 dr) \<in> set new \<and>
     (\<forall>b. evals_of b new =
        (if b = 3 then 1 else 0) +
        count_list (permanent_keyboard_report_assertions
                      (idle_Driver\<lparr>queued_keyboard_report_assertions := [3, 4]\<rparr>)) b))"
  using processKeyboardReport_consumes_front
    [of "idle_Driver\<lparr>queued_keyboard_report_assertions := [3, 4]\<rparr>" 3 "[4]" passing "()"]
  by simp




text \<open>
  C7. \<open>checkStatus\<close> returns false exactly when the queue of report assertions is not
  empty or the pass flag is false, and true otherwise. It changes no member of the driver:
  the state afterwards is the state before with lines added to the output stream, so a
  second call returns the same value. Every line of a failing status goes through
  \<^verbatim>\<open>error()\<close>; when \<^verbatim>\<open>abort_on_first_error_\<close> is set, the first of them ends the process
  before a value is returned.
\<close>

theorem checkStatus_result:
  "if abort_on_first_error d \<and>
      (queued_keyboard_report_assertions d \<noteq> [] \<or> \<not> assertions_passed d)
   then \<exists>d' new. checkStatus d = Exited d' \<and>
          d' = d\<lparr>trace := trace d @ new\<rparr> \<and> list_all is_output new
   else \<exists>b d' new d''. checkStatus d = Returned b d' \<and>
          (\<not> b \<longleftrightarrow> queued_keyboard_report_assertions d \<noteq> [] \<or> \<not> assertions_passed d) \<and>
          d' = d\<lparr>trace := trace d @ new\<rparr> \<and> list_all is_output new \<and>
          checkStatus d' = Returned b d''"
proof -
  let ?left = "Error_out [Str ''There are '',
                 Num (int (length (queued_keyboard_report_assertions d))),
                 Str '' left over assertions in the queue'']"
  let ?failed = "Error_out [Str ''Not all assertions passed'']"
  let ?errors = "Error_out [Str ''Errors occurred'']"
  define new where "new =
    (if queued_keyboard_report_assertions d \<noteq> []
     then (if abort_on_first_error d then [?left]
           else [?left] @ (if assertions_passed d then [] else [?failed]) @ [?errors])
     else if \<not> assertions_passed d
     then (if abort_on_first_error d then [?failed] else [?failed, ?errors])
     else [Log_out [Str ''All tests passed.'']])"
  define b where "b = (queued_keyboard_report_assertions d = [] \<and> assertions_passed d)"
  have o: "list_all is_output new"
    by (simp add: new_def)
  have r: "checkStatus d =
     (if abort_on_first_error d \<and> \<not> b
      then Exited (d\<lparr>trace := trace d @ new\<rparr>) else Returned b (d\<lparr>trace := trace d @ new\<rparr>))"
    unfolding checkStatus_cases new_def b_def by simp
  have "\<not> (abort_on_first_error d \<and> \<not> b) \<Longrightarrow>
          \<exists>d''. checkStatus (d\<lparr>trace := trace d @ new\<rparr>) = Returned b d''"
    unfolding checkStatus_cases b_def by simp
  with r o show ?thesis
    unfolding b_def by (cases "abort_on_first_error d"; simp; blast)
qed

theorem checkStatus_result_witness:
  "if abort_on_first_error (idle_Driver\<lparr>queued_keyboard_report_assertions := [1]\<rparr>) \<and>
      (queued_keyboard_report_assertions
         (idle_Driver\<lparr>queued_keyboard_report_assertions := [1]\<rparr>) \<noteq> [] \<or>
       \<not> assertions_passed (idle_Driver\<lparr>queued_keyboard_report_assertions := [1]\<rparr>))
   then False
   else \<exists>b d' new d''.
          checkStatus (idle_Driver\<lparr>queued_keyboard_report_assertions := [1]\<rparr>) = Returned b d' \<and>
          (\<not> b \<longleftrightarrow>
             queued_keyboard_report_assertions
               (idle_Driver\<lparr>queued_keyboard_report_assertions := [1]\<rparr>) \<noteq> [] \<or>
             \<not> assertions_passed (idle_Driver\<lparr>queued_keyboard_report_assertions := [1]\<rparr>)) \<and>
          d' = idle_Driver\<lparr>queued_keyboard_report_assertions := [1],
                  trace := trace (idle_Driver\<lparr>queued_keyboard_report_assertions := [1]\<rparr>) @ new\<rparr> \<and>
          list_all is_output new \<and>
          checkStatus d' = Returned b d''"
proof -
  have "\<not> abort_on_first_error (idle_Driver\<lparr>queued_keyboard_report_assertions := [1]\<rparr>)"
    by (simp add: idle_Driver_def)
  then show ?thesis
    using checkStatus_result [of "idle_Driver\<lparr>queued_keyboard_report_assertions := [1]\<rparr>"]
    by simp
qed

text \<open>
  C2. The guard of the binding loop in \<open>cycleInternal\<close> (line 337) lets the loop run only
  over an empty list, so \<open>cycleInternal\<close> binds nothing: a single cycle with the stop
  assertion 7 evaluates that assertion once and never calls \<^verbatim>\<open>setDriver\<close> on it. (No
  list makes \<open>cycleInternal\<close> bind, lemma \<open>cycleInternal_never_binds\<close>; the same
  assertion passed as a stop assertion to \<open>cycles\<close> is bound before the first scan, lemma
  \<open>cycles_binds_example\<close>.)
\<close>

theorem cycleInternal_binds_nothing:
  "cycle passing no_report [7] idle_Driver () =
     Returned () (state_of (cycle passing no_report [7] idle_Driver ())) \<and>
   binds_of (trace (fst (state_of (cycle passing no_report [7] idle_Driver ())))) = [] \<and>
   evals_of 7 (trace (fst (state_of (cycle passing no_report [7] idle_Driver ())))) = 1"
  by (simp add: cycle_def cycleInternal_def call_loop_def processCycleAssertions_def
      processKeyboardReportAssertion_def Driver_log_def Let_def idle_Driver_def
      passing_def no_report_def)

text \<open>
  C8. A run of \<open>n > 0\<close> cycles on a driver with no assertion registered and none passed
  in: when the run returns, the cycle id has grown by exactly \<open>n\<close>, the firmware has been
  scanned exactly \<open>n\<close> times, and the pass flag is what it was (true if it was true). The
  run is cut short only by the process exiting, which takes \<^verbatim>\<open>abort_on_first_error_\<close>
  together with the strict flag (a report then finds no queued assertion). Each single
  cycle adds exactly one to the cycle id (\<open>cycleInternal_Returned\<close>, \<open>cycle_step_def\<close>).
\<close>

theorem cycles_without_assertions:
  fixes d :: "'r Driver" and w :: 'w
  assumes "0 < n"
    and "queued_keyboard_report_assertions d = []"
    and "permanent_keyboard_report_assertions d = []"
    and "queued_cycle_assertions d = []"
    and "permanent_cycle_assertions d = []"
  shows "(\<exists>d' w'. cycles ev loop n [] [] d w = Returned () (d', w') \<and>
            cycle_id d' = cycle_id d + n \<and>
            scans_of (trace d') = scans_of (trace d) + nat n \<and>
            assertions_passed d' = assertions_passed d) \<or>
         (\<exists>x. cycles ev loop n [] [] d w = Exited x \<and>
            abort_on_first_error d \<and> error_if_report_without_queued_assertions d)"
proof -
  let ?d2 = "Driver_log [Str ''Running '', Num n, Str '' scan cycles''] d"
  have alt: "cycles ev loop n [] [] d w =
     (case cycles_loop ev loop 0 n [] ?d2 w of
        Returned _ (d3, w') \<Rightarrow> Returned () (Driver_log [] d3, w')
      | Exited x \<Rightarrow> Exited x
      | OutOfFuel x \<Rightarrow> OutOfFuel x)"
    using assms(1) unfolding cycles_alt
    by (simp add: eval_block_def cong: outcome.case_cong prod.case_cong)
  have na: "no_assertions ?d2"
    using assms by (simp add: no_assertions_def)
  show ?thesis
  proof (cases "cycles_loop ev loop 0 n [] ?d2 w")
    case (Returned u s)
    obtain d3 w' where s: "s = (d3, w')" by (cases s)
    note r = Returned[unfolded s]
    from cycles_loop_Returned_run[OF r] assms(1) have run: "cycles_run n ?d2 d3"
      by simp
    have "no_assertions d3 \<and> (\<forall>b. evals_of b (trace d3) = evals_of b (trace ?d2))"
    proof (rule cycles_loop_invariant[OF r,
            where Q = "\<lambda>k dx wx. no_assertions dx \<and>
                         (\<forall>b. evals_of b (trace dx) = evals_of b (trace ?d2))"])
      show "no_assertions ?d2 \<and> (\<forall>b. evals_of b (trace ?d2) = evals_of b (trace ?d2))"
        using na by simp
    next
      fix k :: nat and d0 d1 :: "'r Driver" and w0 :: 'w
      assume q: "no_assertions d0 \<and> (\<forall>b. evals_of b (trace d0) = evals_of b (trace ?d2))"
        and st: "cycle_step [] (length (fst (loop w0))) d0 d1"
      from q have n0: "no_assertions d0" by simp
      from cycle_step_no_assertions[OF st n0] q
      show "no_assertions d1 \<and> (\<forall>b. evals_of b (trace d1) = evals_of b (trace ?d2))"
        by simp
    qed
    then have "assertions_passed d3 = assertions_passed ?d2"
      using run by (intro frame_same_evals_passed) (simp_all add: cycles_run_def)
    with run have "cycles ev loop n [] [] d w = Returned () (Driver_log [] d3, w')"
      "cycle_id (Driver_log [] d3) = cycle_id d + n"
      "scans_of (trace (Driver_log [] d3)) = scans_of (trace d) + nat n"
      "assertions_passed (Driver_log [] d3) = assertions_passed d"
      using r by (simp_all add: alt cycles_run_def)
    then show ?thesis by blast
  next
    case (Exited x)
    from cycles_loop_Exited_flags[OF Exited] Exited show ?thesis
      by (simp add: alt)
  next
    case (OutOfFuel x)
    from cycles_loop_not_OutOfFuel[OF OutOfFuel] show ?thesis ..
  qed
qed

theorem cycles_without_assertions_witness:
  "(0::int) < 3 \<and>
   queued_keyboard_report_assertions idle_Driver = [] \<and>
   permanent_keyboard_report_assertions idle_Driver = [] \<and>
   queued_cycle_assertions idle_Driver = [] \<and>
   permanent_cycle_assertions idle_Driver = [] \<and>
   (\<exists>d' w'. cycles passing one_report 3 [] [] idle_Driver () = Returned () (d', w') \<and>
            cycle_id d' = cycle_id idle_Driver + 3 \<and>
            scans_of (trace d') = scans_of (trace idle_Driver) + nat 3 \<and>
            assertions_passed d' = assertions_passed idle_Driver)"
proof -
  have h: "(0::int) < 3"
   "queued_keyboard_report_assertions idle_Driver = []"
   "permanent_keyboard_report_assertions idle_Driver = []"
   "queued_cycle_assertions idle_Driver = []"
   "permanent_cycle_assertions idle_Driver = []"
    by (simp_all add: idle_Driver_def)
  have "\<not> abort_on_first_error idle_Driver"
    by (simp add: idle_Driver_def)
  then show ?thesis
    using h cycles_without_assertions [OF h, of passing one_report "()"]
    by blast
qed

text \<open>
  C6, as claimed, fails for a negative count: \<open>cycles\<close> with \<open>n = -1\<close> returns without
  any error line, having run no cycle.
\<close>

theorem cycles_negative_count_counterexample:
  "cycles passing one_report (- 1) [] [] idle_Driver () =
     Returned () (state_of (cycles passing one_report (- 1) [] [] idle_Driver ())) \<and>
   errors_of (trace (fst (state_of (cycles passing one_report (- 1) [] [] idle_Driver ())))) = 0 \<and>
   scans_of (trace (fst (state_of (cycles passing one_report (- 1) [] [] idle_Driver ())))) = 0 \<and>
   cycle_id (fst (state_of (cycles passing one_report (- 1) [] [] idle_Driver ()))) =
     cycle_id idle_Driver"
  by (simp add: cycles_def cycles_loop_done Driver_log_def idle_Driver_def)

text \<open>
  C6, amended. \<open>cycles\<close> binds the stop assertions and then runs the requested number of
  cycles: \<open>n\<close> itself when \<open>n \<noteq> 0\<close> and the default count \<^verbatim>\<open>scan_cycles_default_count_\<close>
  when \<open>n = 0\<close>. A positive number of cycles advances the cycle id by that number and
  scans the firmware that often. A number of zero or below (a negative \<open>n\<close>, or \<open>n = 0\<close>
  with such a default) runs no cycle at all: the firmware and the time are left as they
  were, no error line is written, each stop assertion is still bound and evaluated once
  (the logged result being that of its \<^verbatim>\<open>eval()\<close> on the current keyboard report),
  and \<open>cycles\<close> returns normally. The run is cut short only by the process exiting during
  a cycle.
\<close>

theorem cycles_count:
  fixes d :: "'r Driver" and w :: 'w
  shows "(\<exists>d' w'. cycles ev loop n l cl d w = Returned () (d', w') \<and>
            cycle_id d' = cycle_id d + max 0 (requested_cycles n d) \<and>
            scans_of (trace d') = scans_of (trace d) + nat (requested_cycles n d) \<and>
            binds_of (trace d') = binds_of (trace d) @ l \<and>
            (\<forall>a. evals_of a (trace d) + count_list l a \<le> evals_of a (trace d')) \<and>
            (requested_cycles n d \<le> 0 \<longrightarrow>
               w' = w \<and> errors_of (trace d') = errors_of (trace d) \<and>
               time d' = time d \<and>
               (\<forall>a. evals_of a (trace d') = evals_of a (trace d) + count_list l a) \<and>
               (\<forall>a. \<exists>new drs. trace d' = trace d @ new \<and>
                  filter (is_eval_of a) new = map (\<lambda>dr. Eval a (ev a dr)) drs \<and>
                  map current_keyboard_report drs =
                    replicate (count_list l a) (current_keyboard_report d)))) \<or>
         (0 < requested_cycles n d \<and> (\<exists>x. cycles ev loop n l cl d w = Exited x) \<and>
            abort_on_first_error d \<and> error_if_report_without_queued_assertions d)"
proof -
  define m where "m = requested_cycles n d"
  define d2 where "d2 = fold setDriver l
                (Driver_log [Str ''Running '', Num m, Str '' scan cycles''] d)"
  let ?fin = "\<lambda>d3. Driver_log []
            (eval_block ev [Str ''Processing '', Num (int (length l)),
                            Str '' cycle assertions on stop''] l d3)"
  have alt: "cycles ev loop n l cl d w =
     (case cycles_loop ev loop 0 m cl d2 w of
        Returned _ (d3, w') \<Rightarrow> Returned () (?fin d3, w')
      | Exited x \<Rightarrow> Exited x
      | OutOfFuel x \<Rightarrow> OutOfFuel x)"
    unfolding cycles_alt m_def d2_def requested_cycles_def ..
  have fr2: "frame d d2"
    unfolding d2_def by (intro frame_fold_setDriver frame_step frame_refl)
  show ?thesis
  proof (cases "cycles_loop ev loop 0 m cl d2 w")
    case (Returned u s)
    obtain d3 w' where s: "s = (d3, w')" by (cases s)
    note r = Returned[unfolded s]
    from cycles_loop_Returned_run[OF r] have run: "cycles_run (max 0 m) d2 d3"
      by simp
    then have fr3: "frame d2 d3" by (simp add: cycles_run_def)
    have res: "cycles ev loop n l cl d w = Returned () (?fin d3, w')"
      using r by (simp add: alt)
    from run have "cycle_id (?fin d3) = cycle_id d + max 0 m"
      "scans_of (trace (?fin d3)) = scans_of (trace d) + nat m"
      "binds_of (trace (?fin d3)) = binds_of (trace d) @ l"
      by (simp_all add: cycles_run_def d2_def)
    moreover have "\<forall>a. evals_of a (trace d) + count_list l a \<le> evals_of a (trace (?fin d3))"
    proof
      fix a
      have "evals_of a (trace d2) = evals_of a (trace d)" by (simp add: d2_def)
      with frame_evals_mono[OF fr3, of a]
      show "evals_of a (trace d) + count_list l a \<le> evals_of a (trace (?fin d3))"
        by simp
    qed
    moreover have "w' = w \<and> errors_of (trace (?fin d3)) = errors_of (trace d) \<and>
        time (?fin d3) = time d \<and>
        (\<forall>a. evals_of a (trace (?fin d3)) = evals_of a (trace d) + count_list l a) \<and>
        (\<forall>a. \<exists>new drs. trace (?fin d3) = trace d @ new \<and>
           filter (is_eval_of a) new = map (\<lambda>dr. Eval a (ev a dr)) drs \<and>
           map current_keyboard_report drs =
             replicate (count_list l a) (current_keyboard_report d))" if "m \<le> 0"
    proof -
      from that have "\<not> 0 < m" by simp
      from r[unfolded cycles_loop_done[OF this]] have d3: "d3 = d2" "w' = w"
        by simp_all
      have "\<forall>a. \<exists>new drs. trace (?fin d2) = trace d @ new \<and>
           filter (is_eval_of a) new = map (\<lambda>dr. Eval a (ev a dr)) drs \<and>
           map current_keyboard_report drs =
             replicate (count_list l a) (current_keyboard_report d)"
        unfolding d2_def by (intro allI evals_onD evals_on_stop_block)
      then show ?thesis
        unfolding d3 by (simp add: d2_def)
    qed
    ultimately show ?thesis
      using res unfolding m_def by blast
  next
    case (Exited x)
    have "0 < m"
    proof (rule ccontr)
      assume "\<not> 0 < m"
      from Exited[unfolded cycles_loop_done[OF this]] show False by simp
    qed
    moreover from cycles_loop_Exited_flags[OF Exited] frame_flags[OF fr2]
    have "abort_on_first_error d" "error_if_report_without_queued_assertions d"
      by simp_all
    moreover have "cycles ev loop n l cl d w = Exited x"
      using Exited by (simp add: alt)
    ultimately show ?thesis
      unfolding m_def by blast
  next
    case (OutOfFuel x)
    from cycles_loop_not_OutOfFuel[OF OutOfFuel] show ?thesis ..
  qed
qed

theorem cycles_count_witness:
  "requested_cycles (- 1) idle_Driver \<le> 0 \<and>
   (\<exists>d' w'. cycles passing one_report (- 1) [7, 8] [9] idle_Driver () =
               Returned () (d', w') \<and>
      cycle_id d' = cycle_id idle_Driver \<and>
      scans_of (trace d') = scans_of (trace idle_Driver) \<and>
      binds_of (trace d') = binds_of (trace idle_Driver) @ [7, 8] \<and>
      w' = () \<and> errors_of (trace d') = errors_of (trace idle_Driver) \<and>
      time d' = time idle_Driver \<and>
      (\<forall>a. evals_of a (trace d') = evals_of a (trace idle_Driver) + count_list [7, 8] a) \<and>
      (\<forall>a. \<exists>new drs. trace d' = trace idle_Driver @ new \<and>
         filter (is_eval_of a) new = map (\<lambda>dr. Eval a (passing a dr)) drs \<and>
         map current_keyboard_report drs =
           replicate (count_list [7, 8] a) (current_keyboard_report idle_Driver)))"
proof -
  have "requested_cycles (- 1) idle_Driver = - 1"
    by (simp add: requested_cycles_def)
  then show ?thesis
    using cycles_count [of passing one_report "- 1" "[7, 8]" "[9]" idle_Driver "()"]
    by (auto simp del: count_list.simps)
qed

text \<open>
  C9. A permanent report assertion \<open>a\<close> is added to a driver that holds it nowhere else,
  and \<open>K > 0\<close> cycles are run in which each scan of the firmware sends exactly one report
  (the lists passed in do not hold \<open>a\<close> either). When the run returns, the evaluations of
  \<open>a\<close> during the run are, in order, one for each report the firmware sent
  (\<open>scan_reports\<close>): the \<open>i\<close>-th is the result of \<^verbatim>\<open>eval()\<close> in a state of the driver
  whose current report is the \<open>i\<close>-th report. So \<open>a\<close> has been evaluated exactly \<open>K\<close>
  times, and the pass flag can only be true afterwards if all of these evaluations were.
  The collection of permanent report assertions is what it was after the registration,
  so \<open>a\<close> is still registered. The run is cut short only by the process exiting. In the
  instance below the firmware sends the reports 0, 1, 2 and the assertion holds of even
  reports: it is evaluated to true, false, true.
\<close>

theorem permanent_report_assertion_every_report:
  fixes d0 :: "'r Driver" and w :: 'w
  assumes one: "\<forall>w. length (fst (loop w)) = 1"
    and K: "0 < K"
    and a: "a \<notin> set (queued_keyboard_report_assertions d0)"
      "a \<notin> set (permanent_keyboard_report_assertions d0)"
      "a \<notin> set (queued_cycle_assertions d0)"
      "a \<notin> set (permanent_cycle_assertions d0)"
      "a \<notin> set l" "a \<notin> set cl"
  shows "(\<exists>d' w' new drs.
            cycles ev loop K l cl (addPermanentReportAssertion a d0) w = Returned () (d', w') \<and>
            trace d' = trace d0 @ new \<and>
            filter (is_eval_of a) new = map (\<lambda>dr. Eval a (ev a dr)) drs \<and>
            map current_keyboard_report drs = scan_reports loop w (nat K) \<and>
            length drs = nat K \<and>
            (assertions_passed d' \<longrightarrow> (\<forall>dr \<in> set drs. ev a dr)) \<and>
            evals_of a (trace d') = evals_of a (trace d0) + nat K \<and>
            n_overall_keyboard_reports d' = n_overall_keyboard_reports d0 + K \<and>
            a \<in> set (permanent_keyboard_report_assertions d') \<and>
            permanent_keyboard_report_assertions d' =
              permanent_keyboard_report_assertions (addPermanentReportAssertion a d0)) \<or>
         ((\<exists>x. cycles ev loop K l cl (addPermanentReportAssertion a d0) w = Exited x) \<and>
            abort_on_first_error d0 \<and> error_if_report_without_queued_assertions d0)"
proof -
  define d where "d = addPermanentReportAssertion a d0"
  define d2 where "d2 = fold setDriver l
                (Driver_log [Str ''Running '', Num K, Str '' scan cycles''] d)"
  let ?fin = "\<lambda>d3. Driver_log []
            (eval_block ev [Str ''Processing '', Num (int (length l)),
                            Str '' cycle assertions on stop''] l d3)"
  have alt: "cycles ev loop K l cl d w =
     (case cycles_loop ev loop 0 K cl d2 w of
        Returned _ (d3, w') \<Rightarrow> Returned () (?fin d3, w')
      | Exited x \<Rightarrow> Exited x
      | OutOfFuel x \<Rightarrow> OutOfFuel x)"
    using K unfolding cycles_alt d2_def by simp
  have fr2: "frame d d2"
    unfolding d2_def by (intro frame_fold_setDriver frame_step frame_refl)
  have p2: "permanent_keyboard_report_assertions d2 =
              permanent_keyboard_report_assertions d0 @ [a]"
    by (simp add: d2_def d_def addPermanentReportAssertion_def add_def)
  have c2: "count_list (permanent_keyboard_report_assertions d2) a = 1"
    using a(2) by (simp add: p2 count_list_0_iff)
  have u2: "unqueued a d2"
    using a by (simp add: unqueued_def d2_def d_def addPermanentReportAssertion_def)
  have e2: "evals_of a (trace d2) = evals_of a (trace d0)"
    "n_overall_keyboard_reports d2 = n_overall_keyboard_reports d0"
    by (simp_all add: d2_def d_def addPermanentReportAssertion_def)
  have t0: "trace d = trace d0" "assertions_passed d = assertions_passed d0"
    by (simp_all add: d_def addPermanentReportAssertion_def)
  have flags: "abort_on_first_error d2 = abort_on_first_error d0"
    "error_if_report_without_queued_assertions d2 = error_if_report_without_queued_assertions d0"
    by (simp_all add: d2_def d_def addPermanentReportAssertion_def)
  have eo2: "evals_on ev a d d2 []"
    using evals_on_trans[OF evals_on_log evals_on_fold_setDriver] by (simp add: d2_def)
  show ?thesis
  proof (cases "cycles_loop ev loop 0 K cl d2 w")
    case (Returned u s)
    obtain d3 w' where s: "s = (d3, w')" by (cases s)
    note r = Returned[unfolded s]
    let ?Q = "\<lambda>k dx (wx :: 'w). unqueued a dx \<and>
                permanent_keyboard_report_assertions dx = permanent_keyboard_report_assertions d2 \<and>
                evals_of a (trace dx) = evals_of a (trace d2) + k \<and>
                n_overall_keyboard_reports dx = n_overall_keyboard_reports d2 + int k"
    have "?Q (nat (K - 0)) d3 w'"
    proof (rule cycles_loop_invariant[OF r, where Q = ?Q])
      show "?Q 0 d2 w" using u2 by simp
    next
      fix k :: nat and dx dy :: "'r Driver" and wx :: 'w
      assume q: "?Q k dx wx" and st: "cycle_step cl (length (fst (loop wx))) dx dy"
      from q have ux: "unqueued a dx" by simp
      from st have "n_overall_keyboard_reports dy =
          n_overall_keyboard_reports dx + int (length (fst (loop wx)))"
        by (simp add: cycle_step_def)
      with cycle_step_evals[OF st ux a(6)] q one c2
      show "?Q (Suc k) dy (snd (loop wx))" by simp
    qed
    then have q3: "permanent_keyboard_report_assertions d3 = permanent_keyboard_report_assertions d2"
      "evals_of a (trace d3) = evals_of a (trace d2) + nat K"
      "n_overall_keyboard_reports d3 = n_overall_keyboard_reports d2 + K"
      using K by simp_all
    have res: "cycles ev loop K l cl d w = Returned () (?fin d3, w')"
      using r by (simp add: alt)
    have ev3: "evals_of a (trace (?fin d3)) = evals_of a (trace d0) + nat K"
      using q3(2) e2 a(5) by (simp add: count_list_0_iff)
    have n3: "n_overall_keyboard_reports (?fin d3) = n_overall_keyboard_reports d0 + K"
      using q3(3) e2 by simp
    have pm: "permanent_keyboard_report_assertions (?fin d3) =
        permanent_keyboard_report_assertions d"
      using q3(1) by (simp add: d2_def)
    have mem: "a \<in> set (permanent_keyboard_report_assertions (?fin d3))"
      using q3(1) p2 by simp
    have eo3: "evals_on ev a d2 d3 (scan_reports loop w (nat K))"
      using evals_on_cycles_loop[OF r u2 a(6) c2] by simp
    have eof: "evals_on ev a d3 (?fin d3) []"
      using evals_on_trans[OF evals_on_blocks(2)[OF a(5)] evals_on_log] by simp
    from evals_on_trans[OF evals_on_trans[OF eo2 eo3] eof]
    have "evals_on ev a d (?fin d3) (scan_reports loop w (nat K))" by simp
    then obtain new drs where new: "trace (?fin d3) = trace d0 @ new"
      and drs: "map current_keyboard_report drs = scan_reports loop w (nat K)"
      and fil: "filter (is_eval_of a) new = map (\<lambda>dr. Eval a (ev a dr)) drs"
      unfolding evals_on_def t0 by blast
    from drs have len: "length drs = nat K"
      using length_scan_reports[OF one, of w "nat K"] by (metis length_map)
    from cycles_loop_Returned_run[OF r] have "frame d2 d3"
      by (simp add: cycles_run_def)
    with fr2 have "frame d d3" by (rule frame_trans)
    then have "frame d (?fin d3)"
      by (intro frame_step frame_block)
    then have pf: "assertions_passed (?fin d3) \<longrightarrow> fails_of (trace (?fin d3)) = fails_of (trace d0)"
      by (simp add: frame_def t0)
    have pass: "assertions_passed (?fin d3) \<longrightarrow> (\<forall>dr \<in> set drs. ev a dr)"
    proof (intro impI ballI)
      fix dr
      assume "assertions_passed (?fin d3)" and dr: "dr \<in> set drs"
      with pf new have f0: "fails_of new = 0" by simp
      from dr have "Eval a (ev a dr) \<in> set (filter (is_eval_of a) new)"
        unfolding fil by simp
      then have "Eval a (ev a dr) \<in> set new" by simp
      from fails_of_0_D[OF f0 this] show "ev a dr" by simp
    qed
    from res new fil drs len pass ev3 n3 mem pm show ?thesis
      unfolding d_def by blast
  next
    case (Exited x)
    from cycles_loop_Exited_flags[OF Exited] flags
    have "abort_on_first_error d0" "error_if_report_without_queued_assertions d0"
      by simp_all
    moreover have "cycles ev loop K l cl d w = Exited x"
      using Exited by (simp add: alt)
    ultimately show ?thesis
      unfolding d_def by blast
  next
    case (OutOfFuel x)
    from cycles_loop_not_OutOfFuel[OF OutOfFuel] show ?thesis ..
  qed
qed

theorem permanent_report_assertion_every_report_witness:
  "(\<forall>w. length (fst (counting w)) = 1) \<and> (0::int) < 3 \<and>
   2 \<notin> set (queued_keyboard_report_assertions counting_Driver) \<and>
   2 \<notin> set (permanent_keyboard_report_assertions counting_Driver) \<and>
   2 \<notin> set (queued_cycle_assertions counting_Driver) \<and>
   2 \<notin> set (permanent_cycle_assertions counting_Driver) \<and>
   2 \<notin> set ([] :: aref list) \<and>
   (\<exists>d' w' new. cycles even_report counting 3 [] []
               (addPermanentReportAssertion 2 counting_Driver) 0 = Returned () (d', w') \<and>
        trace d' = trace counting_Driver @ new \<and>
        filter (is_eval_of 2) new = [Eval 2 True, Eval 2 False, Eval 2 True] \<and>
        \<not> assertions_passed d' \<and>
        evals_of 2 (trace d') = evals_of 2 (trace counting_Driver) + 3 \<and>
        n_overall_keyboard_reports d' = n_overall_keyboard_reports counting_Driver + 3 \<and>
        2 \<in> set (permanent_keyboard_report_assertions d'))"
proof -
  have h: "\<forall>w. length (fst (counting w)) = 1" "(0::int) < 3"
   "2 \<notin> set (queued_keyboard_report_assertions counting_Driver)"
   "2 \<notin> set (permanent_keyboard_report_assertions counting_Driver)"
   "2 \<notin> set (queued_cycle_assertions counting_Driver)"
   "2 \<notin> set (permanent_cycle_assertions counting_Driver)"
   "2 \<notin> set ([] :: aref list)" "2 \<notin> set ([] :: aref list)"
    by (simp_all add: counting_Driver_def counting_def)
  have na: "\<not> abort_on_first_error counting_Driver"
    by (simp add: counting_Driver_def)
  have sr: "scan_reports counting 0 (nat 3) = [0, 1, 2]"
    by (simp add: counting_def eval_nat_numeral)
  from na permanent_report_assertion_every_report [OF h, of even_report 0]
  obtain d' w' new drs where
    r: "cycles even_report counting 3 [] []
               (addPermanentReportAssertion 2 counting_Driver) 0 = Returned () (d', w')"
    and t: "trace d' = trace counting_Driver @ new"
    and f: "filter (is_eval_of 2) new = map (\<lambda>dr. Eval 2 (even_report 2 dr)) drs"
    and m: "map current_keyboard_report drs = scan_reports counting 0 (nat 3)"
    and p: "assertions_passed d' \<longrightarrow> (\<forall>dr \<in> set drs. even_report 2 dr)"
    and e: "evals_of 2 (trace d') = evals_of 2 (trace counting_Driver) + nat 3"
    and n: "n_overall_keyboard_reports d' = n_overall_keyboard_reports counting_Driver + 3"
    and s: "2 \<in> set (permanent_keyboard_report_assertions d')"
    by blast
  from m[unfolded sr] obtain x y z where drs: "drs = [x, y, z]"
    "current_keyboard_report x = 0" "current_keyboard_report y = 1"
    "current_keyboard_report z = 2"
    by (auto simp: map_eq_Cons_conv)
  have "filter (is_eval_of 2) new = [Eval 2 True, Eval 2 False, Eval 2 True]"
    using f drs by (simp add: even_report_def)
  moreover have "\<not> assertions_passed d'"
    using p drs by (auto simp: even_report_def)
  ultimately show ?thesis
    using h r t e n s by auto
qed

text \<open>
  C4. \<open>skipTime\<close> with a positive cycle duration \<open>c\<close> and a positive \<open>delta_t\<close>, given
  fuel for at least \<open>\<lceil>delta_t / c\<rceil>\<close> cycles: when the call returns it has run exactly
  \<open>\<lceil>delta_t / c\<rceil>\<close> cycles (the cycle id has grown by that number and the firmware has been
  scanned that often), the time has advanced by that many cycle durations, and the time
  elapsed since the start of the call is at least \<open>delta_t\<close>. It never runs out of fuel;
  it is cut short only by the process exiting during a cycle. The instance below is the
  scenario of the claim: a duration of 10 and \<open>delta_t = 25\<close> give exactly 3 cycles and 30
  time units.
\<close>

theorem skipTime_ticks:
  fixes d :: "'r Driver" and w :: 'w
  assumes "0 < cycle_duration d" and "0 < delta_t"
    and "nat \<lceil>delta_t / real_of_int (cycle_duration d)\<rceil> \<le> fuel"
  shows "(\<exists>d' w'. skipTime ev loop fuel delta_t l d w = Returned () (d', w') \<and>
            cycle_id d' = cycle_id d + \<lceil>delta_t / real_of_int (cycle_duration d)\<rceil> \<and>
            scans_of (trace d') =
              scans_of (trace d) + nat \<lceil>delta_t / real_of_int (cycle_duration d)\<rceil> \<and>
            time d' = time d + \<lceil>delta_t / real_of_int (cycle_duration d)\<rceil> * cycle_duration d \<and>
            delta_t \<le> real_of_int (time d' - time d)) \<or>
         ((\<exists>x. skipTime ev loop fuel delta_t l d w = Exited x) \<and>
            abort_on_first_error d \<and> error_if_report_without_queued_assertions d)"
proof -
  let ?c = "\<lceil>delta_t / real_of_int (cycle_duration d)\<rceil>"
  define d3 where "d3 = fold setDriver l
      (Driver_log [Str ''Skipping dt >= '', Dbl delta_t, Str '' ms''] d)"
  let ?fin = "\<lambda>e d4. Driver_log []
                    (eval_block ev [Str ''Processing '', Num (int (length l)),
                                    Str '' cycle assertions on stop''] l
                       (Driver_log [Dbl e, Str '' ms ('', Num (cycle_id d4),
                                    Str '' cycles) skipped''] d4))"
  have alt: "skipTime ev loop fuel delta_t l d w =
     (case skipTime_loop ev loop fuel delta_t (time d) 0 d3 w of
        Returned e (d4, w') \<Rightarrow> Returned () (?fin e d4, w')
      | Exited x \<Rightarrow> Exited x
      | OutOfFuel x \<Rightarrow> OutOfFuel x)"
    using assms(1) unfolding skipTime_alt checkCycleDurationSet_cases d3_def by simp
  have f3: "cycle_duration d3 = cycle_duration d" "time d3 = time d" "cycle_id d3 = cycle_id d"
    "scans_of (trace d3) = scans_of (trace d)"
    "abort_on_first_error d3 = abort_on_first_error d"
    "error_if_report_without_queued_assertions d3 = error_if_report_without_queued_assertions d"
    by (simp_all add: d3_def)
  have c: "1 \<le> ?c"
    using ceiling_step(2)[of "cycle_duration d" 0 delta_t] assms(1,2) by simp
  have "0 < cycle_duration d3" using assms(1) f3 by simp
  moreover have "(0::real) = real_of_int (time d3 - time d)" using f3 by simp
  moreover have "nat \<lceil>(delta_t - 0) / real_of_int (cycle_duration d3)\<rceil> \<le> fuel"
    using assms(3) f3 by simp
  ultimately have "(\<exists>d' w'. skipTime_loop ev loop fuel delta_t (time d) 0 d3 w =
                     Returned (real_of_int (time d' - time d)) (d', w') \<and>
            cycles_run (max 0 \<lceil>(delta_t - 0) / real_of_int (cycle_duration d3)\<rceil>) d3 d' \<and>
            delta_t \<le> real_of_int (time d' - time d)) \<or>
         (\<exists>x. skipTime_loop ev loop fuel delta_t (time d) 0 d3 w = Exited x)"
    by (rule skipTime_loop_enough_fuel)
  then show ?thesis
  proof
    assume "\<exists>d' w'. skipTime_loop ev loop fuel delta_t (time d) 0 d3 w =
                     Returned (real_of_int (time d' - time d)) (d', w') \<and>
            cycles_run (max 0 \<lceil>(delta_t - 0) / real_of_int (cycle_duration d3)\<rceil>) d3 d' \<and>
            delta_t \<le> real_of_int (time d' - time d)"
    then obtain d4 w' where r: "skipTime_loop ev loop fuel delta_t (time d) 0 d3 w =
                     Returned (real_of_int (time d4 - time d)) (d4, w')"
      and run: "cycles_run ?c d3 d4"
      and le: "delta_t \<le> real_of_int (time d4 - time d)"
      using c f3 by auto
    let ?d' = "?fin (real_of_int (time d4 - time d)) d4"
    from run f3 have "cycle_id ?d' = cycle_id d + ?c"
      "scans_of (trace ?d') = scans_of (trace d) + nat ?c"
      "time ?d' = time d + ?c * cycle_duration d"
      by (simp_all add: cycles_run_def)
    moreover from le have "delta_t \<le> real_of_int (time ?d' - time d)" by simp
    moreover have "skipTime ev loop fuel delta_t l d w = Returned () (?d', w')"
      using r by (simp add: alt)
    ultimately show ?thesis by blast
  next
    assume "\<exists>x. skipTime_loop ev loop fuel delta_t (time d) 0 d3 w = Exited x"
    then obtain x where x: "skipTime_loop ev loop fuel delta_t (time d) 0 d3 w = Exited x" ..
    from skipTime_loop_Exited_flags[OF x] f3
    have "abort_on_first_error d" "error_if_report_without_queued_assertions d" by simp_all
    moreover have "skipTime ev loop fuel delta_t l d w = Exited x"
      using x by (simp add: alt)
    ultimately show ?thesis by blast
  qed
qed

theorem skipTime_ticks_witness:
  "0 < cycle_duration idle_Driver \<and> (0::real) < 25 \<and>
   nat \<lceil>25 / real_of_int (cycle_duration idle_Driver)\<rceil> \<le> 3 \<and>
   (\<exists>d' w'. skipTime passing one_report 3 25 [] idle_Driver () = Returned () (d', w') \<and>
      cycle_id d' = cycle_id idle_Driver + 3 \<and>
      scans_of (trace d') = scans_of (trace idle_Driver) + 3 \<and>
      time d' = time idle_Driver + 30 \<and>
      (25::real) \<le> real_of_int (time d' - time idle_Driver))"
proof -
  have cd: "cycle_duration idle_Driver = 10" "\<not> abort_on_first_error idle_Driver"
    by (simp_all add: idle_Driver_def)
  have h: "0 < cycle_duration idle_Driver" "(0::real) < 25"
   "nat \<lceil>25 / real_of_int (cycle_duration idle_Driver)\<rceil> \<le> 3"
    by (simp_all add: cd)
  have c: "\<lceil>25 / real_of_int (cycle_duration idle_Driver)\<rceil> = 3"
    by (simp add: cd)
  show ?thesis
    using h cd(2) skipTime_ticks [OF h, of passing one_report "[]" "()"]
    unfolding c cd(1) by auto
qed

text \<open>
  C5, as claimed, fails: with a cycle duration of zero and \<^verbatim>\<open>abort_on_first_error_\<close> not
  set, \<open>skipTime\<close> does not stop at the error line. For \<open>delta_t = 25\<close> it goes on to run
  cycles (two units of fuel give two scans, and the fuel runs out); for \<open>delta_t = 0\<close> it
  returns normally, the pass flag is still true and \<open>checkStatus\<close> returns true.
\<close>

theorem skipTime_cycle_duration_not_set_counterexample:
  "skipTime passing no_report 2 25 [] zero_Driver () =
     OutOfFuel (state_of (skipTime passing no_report 2 25 [] zero_Driver ())) \<and>
   scans_of (trace (fst (state_of (skipTime passing no_report 2 25 [] zero_Driver ())))) = 2 \<and>
   cycle_id (fst (state_of (skipTime passing no_report 2 25 [] zero_Driver ()))) = 2 \<and>
   skipTime passing no_report 0 0 [] zero_Driver () =
     Returned () (state_of (skipTime passing no_report 0 0 [] zero_Driver ())) \<and>
   assertions_passed (fst (state_of (skipTime passing no_report 0 0 [] zero_Driver ()))) \<and>
   checkStatus (fst (state_of (skipTime passing no_report 0 0 [] zero_Driver ()))) =
     Returned True
       (state_of (checkStatus (fst (state_of (skipTime passing no_report 0 0 [] zero_Driver ())))))"
  by (simp add: skipTime_def checkCycleDurationSet_def Driver_error_def numeral_2_eq_2
      cycleInternal_def call_loop_def no_report_def Driver_log_def Let_def
      zero_Driver_def idle_Driver_def checkStatus_def)

text \<open>
  C5, amended. \<open>skipTime\<close> called while the cycle duration is zero first writes the error
  line of \<open>checkCycleDurationSet\<close> ("Please set test.cycle_duration_ ..."), before any
  cycle is run, whatever the outcome of the call and however much fuel it is given. When
  \<^verbatim>\<open>abort_on_first_error_\<close> is set the process exits right there, with nothing but that
  line added. Otherwise the call does not fail but goes on as for any other duration: for
  a positive \<open>delta_t\<close> it runs one cycle after the other without the time advancing, so
  it uses up any fuel and never returns; for \<open>delta_t \<le> 0\<close> it runs no cycle, binds and
  evaluates the stop assertions (each logged result being that of \<^verbatim>\<open>eval()\<close> on the
  current keyboard report) and returns normally, and the error line does not change the
  pass flag.
\<close>

theorem skipTime_cycle_duration_not_set:
  fixes d :: "'r Driver" and w :: 'w
  assumes "cycle_duration d = 0"
  shows "prefix (trace d @ [Error_out [Str msg_cycle_duration]])
           (trace (fst (state_of (skipTime ev loop fuel delta_t l d w)))) \<and>
         (abort_on_first_error d \<longrightarrow>
            skipTime ev loop fuel delta_t l d w =
              Exited (d\<lparr>trace := trace d @ [Error_out [Str msg_cycle_duration]]\<rparr>, w)) \<and>
         (\<not> abort_on_first_error d \<and> 0 < delta_t \<longrightarrow>
            (\<exists>d' w'. skipTime ev loop fuel delta_t l d w = OutOfFuel (d', w') \<and>
               scans_of (trace d') = scans_of (trace d) + fuel \<and>
               cycle_id d' = cycle_id d + int fuel \<and> time d' = time d)) \<and>
         (\<not> abort_on_first_error d \<and> delta_t \<le> 0 \<longrightarrow>
            (\<exists>d'. skipTime ev loop fuel delta_t l d w = Returned () (d', w) \<and>
               scans_of (trace d') = scans_of (trace d) \<and>
               cycle_id d' = cycle_id d \<and> time d' = time d \<and>
               errors_of (trace d') = errors_of (trace d) + 1 \<and>
               binds_of (trace d') = binds_of (trace d) @ l \<and>
               (\<forall>a. evals_of a (trace d') = evals_of a (trace d) + count_list l a) \<and>
               (\<forall>a. \<exists>new drs. trace d' = trace d @ new \<and>
                  filter (is_eval_of a) new = map (\<lambda>dr. Eval a (ev a dr)) drs \<and>
                  map current_keyboard_report drs =
                    replicate (count_list l a) (current_keyboard_report d)) \<and>
               (assertions_passed d' \<longleftrightarrow>
                  assertions_passed d \<and> fails_of (trace d') = fails_of (trace d))))"
proof (cases "abort_on_first_error d")
  case True
  with assms show ?thesis
    unfolding skipTime_alt checkCycleDurationSet_cases by simp
next
  case False
  define d1 where "d1 = d\<lparr>trace := trace d @ [Error_out [Str msg_cycle_duration]]\<rparr>"
  define d3 where "d3 = fold setDriver l
      (Driver_log [Str ''Skipping dt >= '', Dbl delta_t, Str '' ms''] d1)"
  let ?r = "skipTime_loop ev loop fuel delta_t (time d1) 0 d3 w"
  let ?fin = "\<lambda>e d4. Driver_log []
                    (eval_block ev [Str ''Processing '', Num (int (length l)),
                                    Str '' cycle assertions on stop''] l
                       (Driver_log [Dbl e, Str '' ms ('', Num (cycle_id d4),
                                    Str '' cycles) skipped''] d4))"
  have c: "checkCycleDurationSet d = Returned () d1"
    using False assms unfolding checkCycleDurationSet_cases d1_def by simp
  have f01: "frame d d1"
    unfolding d1_def by (intro frame_upd frame_refl) simp
  have f13: "frame d1 d3"
    unfolding d3_def by (intro frame_fold_setDriver frame_step frame_refl)
  have f03: "frame d d3" using f01 f13 by (rule frame_trans)
  have "frame d3 (fst (state_of ?r))"
    by (rule skipTime_loop_frame)
  with f13 have fr: "frame d1 (fst (state_of ?r))"
    by (rule frame_trans)
  have pre: "prefix (trace d @ [Error_out [Str msg_cycle_duration]])
           (trace (fst (state_of (skipTime ev loop fuel delta_t l d w))))"
  proof -
    have "frame d1 (fst (state_of (skipTime ev loop fuel delta_t l d w)))"
    proof (cases ?r)
      case (Returned e s)
      obtain d4 w' where s: "s = (d4, w')" by (cases s)
      from fr Returned s have "frame d1 d4" by simp
      then have "frame d1 (?fin e d4)"
        by (intro frame_step frame_block)
      then show ?thesis
        unfolding skipTime_alt c using Returned s by (simp add: d3_def)
    next
      case (Exited x)
      with fr show ?thesis
        unfolding skipTime_alt c by (simp add: d3_def)
    next
      case (OutOfFuel x)
      with fr show ?thesis
        unfolding skipTime_alt c by (simp add: d3_def)
    qed
    then show ?thesis by (simp add: frame_def d1_def)
  qed
  have pos: "\<exists>d' w'. skipTime ev loop fuel delta_t l d w = OutOfFuel (d', w') \<and>
               scans_of (trace d') = scans_of (trace d) + fuel \<and>
               cycle_id d' = cycle_id d + int fuel \<and> time d' = time d" if "0 < delta_t"
  proof -
    have "\<exists>d' w'. skipTime_loop ev loop fuel delta_t (time d1) 0 d3 w = OutOfFuel (d', w') \<and>
           cycles_run (int fuel) d3 d'"
      using assms False that
      by (intro skipTime_loop_zero_duration_run) (simp_all add: d3_def d1_def)
    then obtain d' w' where r: "?r = OutOfFuel (d', w')" and run: "cycles_run (int fuel) d3 d'"
      by blast
    have "skipTime ev loop fuel delta_t l d w = OutOfFuel (d', w')"
      unfolding skipTime_alt c using r by (simp add: d3_def)
    moreover from run assms have "scans_of (trace d') = scans_of (trace d) + fuel"
      "cycle_id d' = cycle_id d + int fuel" "time d' = time d"
      by (simp_all add: cycles_run_def d3_def d1_def)
    ultimately show ?thesis by blast
  qed
  have nonpos: "\<exists>d'. skipTime ev loop fuel delta_t l d w = Returned () (d', w) \<and>
               scans_of (trace d') = scans_of (trace d) \<and>
               cycle_id d' = cycle_id d \<and> time d' = time d \<and>
               errors_of (trace d') = errors_of (trace d) + 1 \<and>
               binds_of (trace d') = binds_of (trace d) @ l \<and>
               (\<forall>a. evals_of a (trace d') = evals_of a (trace d) + count_list l a) \<and>
               (\<forall>a. \<exists>new drs. trace d' = trace d @ new \<and>
                  filter (is_eval_of a) new = map (\<lambda>dr. Eval a (ev a dr)) drs \<and>
                  map current_keyboard_report drs =
                    replicate (count_list l a) (current_keyboard_report d)) \<and>
               (assertions_passed d' \<longleftrightarrow>
                  assertions_passed d \<and> fails_of (trace d') = fails_of (trace d))"
    if "delta_t \<le> 0"
  proof -
    from that have "\<not> (0::real) < delta_t" by simp
    then have r: "?r = Returned 0 (d3, w)"
      by (rule skipTime_loop_done)
    have res: "skipTime ev loop fuel delta_t l d w = Returned () (?fin 0 d3, w)"
      unfolding skipTime_alt c using r by (simp add: d3_def)
    have "frame d (?fin 0 d3)"
      using f03 by (intro frame_step frame_block)
    then have "assertions_passed (?fin 0 d3) \<longleftrightarrow>
        assertions_passed d \<and> fails_of (trace (?fin 0 d3)) = fails_of (trace d)"
      by (simp add: frame_def)
    moreover have "scans_of (trace (?fin 0 d3)) = scans_of (trace d)"
      "cycle_id (?fin 0 d3) = cycle_id d" "time (?fin 0 d3) = time d"
      "errors_of (trace (?fin 0 d3)) = errors_of (trace d) + 1"
      "binds_of (trace (?fin 0 d3)) = binds_of (trace d) @ l"
      "\<forall>a. evals_of a (trace (?fin 0 d3)) = evals_of a (trace d) + count_list l a"
      by (simp_all add: d3_def d1_def)
    moreover have "\<forall>a. \<exists>new drs. trace (?fin 0 d3) = trace d @ new \<and>
           filter (is_eval_of a) new = map (\<lambda>dr. Eval a (ev a dr)) drs \<and>
           map current_keyboard_report drs =
             replicate (count_list l a) (current_keyboard_report d)"
    proof (intro allI evals_onD)
      fix a
      let ?d4 = "Driver_log [Dbl 0, Str '' ms ('', Num (cycle_id d3),
                                    Str '' cycles) skipped''] d3"
      have "evals_on ev a d d1 []"
        unfolding d1_def
        by (rule evals_on_quiet[of _ _ "[Error_out [Str msg_cycle_duration]]"]) simp_all
      moreover have "evals_on ev a d1 d3 []"
        using evals_on_trans[OF evals_on_log evals_on_fold_setDriver] by (simp add: d3_def)
      ultimately have "evals_on ev a d d3 []"
        using evals_on_trans by fastforce
      from evals_on_trans[OF this evals_on_log]
      have "evals_on ev a d ?d4 []" by simp
      from evals_on_trans[OF evals_on_trans[OF this evals_on_eval_block] evals_on_log]
      show "evals_on ev a d (?fin 0 d3)
          (replicate (count_list l a) (current_keyboard_report d))"
        by (simp add: d3_def d1_def)
    qed
    ultimately show ?thesis using res by blast
  qed
  from False pre pos nonpos show ?thesis by blast
qed

theorem skipTime_cycle_duration_not_set_witness:
  "cycle_duration zero_Driver = 0 \<and> \<not> abort_on_first_error zero_Driver \<and> (0::real) < 25 \<and>
   (\<exists>d' w'. skipTime passing one_report 3 25 [7] zero_Driver () = OutOfFuel (d', w') \<and>
      scans_of (trace d') = scans_of (trace zero_Driver) + 3 \<and>
      cycle_id d' = cycle_id zero_Driver + int 3 \<and> time d' = time zero_Driver) \<and>
   (0::real) \<le> 0 \<and>
   (\<exists>d'. skipTime passing one_report 3 0 [7] zero_Driver () = Returned () (d', ()) \<and>
      scans_of (trace d') = scans_of (trace zero_Driver) \<and>
      cycle_id d' = cycle_id zero_Driver \<and> time d' = time zero_Driver \<and>
      errors_of (trace d') = errors_of (trace zero_Driver) + 1 \<and>
      binds_of (trace d') = binds_of (trace zero_Driver) @ [7] \<and>
      (\<forall>a. evals_of a (trace d') = evals_of a (trace zero_Driver) + count_list [7] a)) \<and>
   cycle_duration (zero_Driver\<lparr>abort_on_first_error := True\<rparr>) = 0 \<and>
   abort_on_first_error (zero_Driver\<lparr>abort_on_first_error := True\<rparr>) \<and>
   skipTime passing one_report 3 25 [7] (zero_Driver\<lparr>abort_on_first_error := True\<rparr>) () =
     Exited (zero_Driver\<lparr>abort_on_first_error := True,
               trace := trace (zero_Driver\<lparr>abort_on_first_error := True\<rparr>) @
                 [Error_out [Str msg_cycle_duration]]\<rparr>, ())"
proof -
  have h: "cycle_duration zero_Driver = 0" "\<not> abort_on_first_error zero_Driver"
    "cycle_duration (zero_Driver\<lparr>abort_on_first_error := True\<rparr>) = 0"
    by (simp_all add: zero_Driver_def idle_Driver_def)
  show ?thesis
    using h skipTime_cycle_duration_not_set [OF h(1), of passing one_report 3 25 "[7]" "()"]
      skipTime_cycle_duration_not_set [OF h(1), of passing one_report 3 0 "[7]" "()"]
      skipTime_cycle_duration_not_set [OF h(3), of passing one_report 3 25 "[7]" "()"]
    by auto
qed



end
